theory Spec2Isabelle
  imports Complex_Main
begin

section \<open>The C++ type \<open>double\<close>: IEEE 754 binary64\<close>

text \<open>
  Every number of the program is a C++ \<open>double\<close>. A value is a signed magnitude
  (so that the two zeros are distinct), a signed infinity or a NaN. The sign is
  \<open>True\<close> for a negative value. Arithmetic computes the exact real result and rounds
  it to the nearest representable value, ties to the even significand, as the default
  rounding mode of IEEE 754 does. Every operation of the source is rounded on its own:
  no multiplication is fused with an addition, and no intermediate result is kept in a
  wider format.
\<close>

datatype double = Num bool real | Infty bool | NaN

text \<open>The real number that a finite double stands for.\<close>

fun valof :: "double \<Rightarrow> real" where
  "valof (Num s m) = (if s then - m else m)"
| "valof (Infty s) = 0"
| "valof NaN = 0"

fun is_finite :: "double \<Rightarrow> bool" where
  "is_finite (Num s m) = True"
| "is_finite (Infty s) = False"
| "is_finite NaN = False"

fun is_nan :: "double \<Rightarrow> bool" where
  "is_nan NaN = True"
| "is_nan (Num s m) = False"
| "is_nan (Infty s) = False"

subsection \<open>Rounding to nearest, ties to even\<close>

text \<open>
  \<open>expo m\<close> is the binary exponent of a positive magnitude, the largest \<open>e\<close> with
  \<open>2 powi e \<le> m\<close>. It is found by bisection between \<open>- 2048\<close> and \<open>2047\<close>, which
  covers every magnitude that rounding has to tell apart.
\<close>

fun expo_search :: "int list \<Rightarrow> int \<Rightarrow> real \<Rightarrow> int" where
  "expo_search [] lo m = lo"
| "expo_search (w # ws) lo m =
     (if 2 powi (lo + w) \<le> m then expo_search ws (lo + w) m else expo_search ws lo m)"

definition expo :: "real \<Rightarrow> int" where
  "expo m = expo_search [2048, 1024, 512, 256, 128, 64, 32, 16, 8, 4, 2, 1] (- 2048) m"

text \<open>
  The exponent of the unit in the last place: 53 significant bits, and never below
  the subnormal spacing \<open>2 powi (-1074)\<close>.
\<close>

definition quantum :: "real \<Rightarrow> int" where
  "quantum m = max (expo m - 52) (- 1074)"

text \<open>The nearest integer, the even one on a tie.\<close>

definition rne :: "real \<Rightarrow> int" where
  "rne q = (let f = \<lfloor>q\<rfloor>; r = q - of_int f in
     if r < 1 / 2 then f else if 1 / 2 < r then f + 1 else if even f then f else f + 1)"

definition round_mag :: "real \<Rightarrow> real" where
  "round_mag m = (if m = 0 then 0 else of_int (rne (m / 2 powi quantum m)) * 2 powi quantum m)"

text \<open>A rounded magnitude of \<open>2 ^ 1024\<close> or more has overflowed: the result is an infinity.\<close>

definition mk :: "bool \<Rightarrow> real \<Rightarrow> double" where
  "mk s m = (let r = round_mag m in if 2 ^ 1024 \<le> r then Infty s else Num s r)"

text \<open>The double nearest to a real number; an exact zero is \<open>+0\<close>.\<close>

definition round_real :: "real \<Rightarrow> double" where
  "round_real v = (if v = 0 then Num False 0 else mk (v < 0) \<bar>v\<bar>)"

subsection \<open>Arithmetic\<close>

fun fneg :: "double \<Rightarrow> double" where
  "fneg (Num s m) = Num (\<not> s) m"
| "fneg (Infty s) = Infty (\<not> s)"
| "fneg NaN = NaN"

fun fabs :: "double \<Rightarrow> double" where
  "fabs (Num s m) = Num False m"
| "fabs (Infty s) = Infty False"
| "fabs NaN = NaN"

fun fadd :: "double \<Rightarrow> double \<Rightarrow> double" where
  "fadd (Num s a) (Num t b) =
     (let r = valof (Num s a) + valof (Num t b) in
      if r = 0 then Num (s \<and> t) 0 else mk (r < 0) \<bar>r\<bar>)"
| "fadd (Num s a) (Infty t) = Infty t"
| "fadd (Infty s) (Num t b) = Infty s"
| "fadd (Infty s) (Infty t) = (if s = t then Infty s else NaN)"
| "fadd NaN b = NaN"
| "fadd a NaN = NaN"

definition fsub :: "double \<Rightarrow> double \<Rightarrow> double" where
  "fsub a b = fadd a (fneg b)"

fun fmul :: "double \<Rightarrow> double \<Rightarrow> double" where
  "fmul (Num s a) (Num t b) = mk (s \<noteq> t) (a * b)"
| "fmul (Num s a) (Infty t) = (if a = 0 then NaN else Infty (s \<noteq> t))"
| "fmul (Infty s) (Num t b) = (if b = 0 then NaN else Infty (s \<noteq> t))"
| "fmul (Infty s) (Infty t) = Infty (s \<noteq> t)"
| "fmul NaN b = NaN"
| "fmul a NaN = NaN"

fun fdiv :: "double \<Rightarrow> double \<Rightarrow> double" where
  "fdiv (Num s a) (Num t b) =
     (if b = 0 then (if a = 0 then NaN else Infty (s \<noteq> t)) else mk (s \<noteq> t) (a / b))"
| "fdiv (Num s a) (Infty t) = Num (s \<noteq> t) 0"
| "fdiv (Infty s) (Num t b) = Infty (s \<noteq> t)"
| "fdiv (Infty s) (Infty t) = NaN"
| "fdiv NaN b = NaN"
| "fdiv a NaN = NaN"

text \<open>
  The square root, correctly rounded. \<open>isqrt n\<close> is the integer square root, found two
  bits at a time; \<open>sqrt_mag\<close> scales the magnitude so that the root has its 53
  significant bits before the point, and rounds on the remainder.
\<close>

function isqrt :: "int \<Rightarrow> int" where
  "isqrt n =
     (if n < 1 then 0
      else let r = 2 * isqrt (n div 4) in if (r + 1) * (r + 1) \<le> n then r + 1 else r)"
  by pat_completeness auto
termination
  by (relation "measure nat") auto

declare isqrt.simps [simp del]

definition sqrt_mag :: "real \<Rightarrow> real" where
  "sqrt_mag m =
     (if m = 0 then 0 else
      let u = expo m div 2 - 52;
          q = m / 2 powi (2 * u);
          k = isqrt \<lfloor>q\<rfloor>;
          h = of_int (k * k + k) + 1 / 4
      in of_int (if q < h then k else if h < q then k + 1 else if even k then k else k + 1)
           * 2 powi u)"

fun fsqrt :: "double \<Rightarrow> double" where
  "fsqrt (Num s m) = (if m = 0 then Num s 0 else if s then NaN else Num False (sqrt_mag m))"
| "fsqrt (Infty s) = (if s then NaN else Infty False)"
| "fsqrt NaN = NaN"

subsection \<open>Comparisons\<close>

text \<open>Every comparison with a NaN is false; the two zeros are equal.\<close>

fun flt :: "double \<Rightarrow> double \<Rightarrow> bool" where
  "flt (Num s a) (Num t b) = (valof (Num s a) < valof (Num t b))"
| "flt (Num s a) (Infty t) = (\<not> t)"
| "flt (Infty s) (Num t b) = s"
| "flt (Infty s) (Infty t) = (s \<and> \<not> t)"
| "flt NaN b = False"
| "flt a NaN = False"

definition fgt :: "double \<Rightarrow> double \<Rightarrow> bool" where
  "fgt a b = flt b a"

fun feq :: "double \<Rightarrow> double \<Rightarrow> bool" where
  "feq (Num s a) (Num t b) = (valof (Num s a) = valof (Num t b))"
| "feq (Infty s) (Infty t) = (s = t)"
| "feq (Num s a) (Infty t) = False"
| "feq (Infty s) (Num t b) = False"
| "feq NaN b = False"
| "feq a NaN = False"

definition fle :: "double \<Rightarrow> double \<Rightarrow> bool" where
  "fle a b = (flt a b \<or> feq a b)"

text \<open>A decimal literal or input text denotes the double nearest to it.\<close>

definition lit :: "real \<Rightarrow> double" where
  "lit v = round_real v"

subsection \<open>The functions of \<open>math.h\<close>\<close>

text \<open>
  \<open>acos\<close>, \<open>sin\<close>, \<open>cos\<close> and \<open>atan2\<close> come from the C library. Their special cases
  are those of the C standard (Annex F): \<open>acos\<close> of an argument outside \<open>[-1, 1]\<close> is a
  NaN, \<open>atan2\<close> looks at the signs of zeros and infinities. On the other arguments the
  library's result is taken to be the real function's value correctly rounded. What is
  proved about the angles asks less of the library: that its result is within one unit in
  the last place of the real function's value.
\<close>

definition atan2 :: "real \<Rightarrow> real \<Rightarrow> real" where
  "atan2 v u =
     (if 0 < u then arctan (v / u)
      else if u < 0 then (if 0 \<le> v then arctan (v / u) + pi else arctan (v / u) - pi)
      else if 0 < v then pi / 2
      else if v < 0 then - pi / 2
      else 0)"

fun facos :: "double \<Rightarrow> double" where
  "facos (Num s m) = (if 1 < m then NaN else round_real (arccos (valof (Num s m))))"
| "facos (Infty s) = NaN"
| "facos NaN = NaN"

fun fsin :: "double \<Rightarrow> double" where
  "fsin (Num s m) = (if m = 0 then Num s 0 else round_real (sin (valof (Num s m))))"
| "fsin (Infty s) = NaN"
| "fsin NaN = NaN"

fun fcos :: "double \<Rightarrow> double" where
  "fcos (Num s m) = round_real (cos (valof (Num s m)))"
| "fcos (Infty s) = NaN"
| "fcos NaN = NaN"

fun fatan2 :: "double \<Rightarrow> double \<Rightarrow> double" where
  "fatan2 (Num s a) (Num t b) =
     (if a = 0 then (if t then mk s pi else Num s 0)
      else if b = 0 then mk s (pi / 2)
      else mk s \<bar>atan2 (valof (Num s a)) (valof (Num t b))\<bar>)"
| "fatan2 (Num s a) (Infty t) = (if t then mk s pi else Num s 0)"
| "fatan2 (Infty s) (Num t b) = mk s (pi / 2)"
| "fatan2 (Infty s) (Infty t) = (if t then mk s (3 * pi / 4) else mk s (pi / 4))"
| "fatan2 NaN b = NaN"
| "fatan2 a NaN = NaN"

section \<open>The program\<close>

text \<open>
  \<open>struct coord {double x; double y;}\<close> holds a position, a pair of link lengths
  (\<open>x\<close> the first link, \<open>y\<close> the second) or a pair of joint angles (\<open>x\<close> the first
  angle, \<open>y\<close> the second). Its fields are \<open>cx\<close> and \<open>cy\<close> here.
\<close>

record coord =
  cx :: double
  cy :: double

definition norm2d :: "double \<Rightarrow> double \<Rightarrow> double" where
  "norm2d a b = fsqrt (fadd (fmul a a) (fmul b b))"

subsection \<open>Positions to joint angles\<close>

definition from_pos_to_angle :: "coord \<Rightarrow> coord \<Rightarrow> coord" where
  "from_pos_to_angle pos L =
     (let theta2 = facos (fdiv
            (fsub (fsub (fadd (fmul (cx pos) (cx pos)) (fmul (cy pos) (cy pos)))
                        (fmul (cx L) (cx L)))
                  (fmul (cy L) (cy L)))
            (fmul (fmul (lit 2) (cx L)) (cy L)));
          theta1 = fsub (fatan2 (cy pos) (cx pos))
                        (fatan2 (fmul (cy L) (fsin theta2))
                                (fadd (cx L) (fmul (cy L) (fcos theta2))))
      in \<lparr>cx = theta1, cy = theta2\<rparr>)"

subsection \<open>Feasibility of the straight line\<close>

text \<open>
  Each failing branch of \<open>is_given_inputs_feasible\<close> prints its message and calls
  \<open>exit(0)\<close>; the function returns (\<open>true\<close>) only when no branch fails. The three
  branches are the three errors, in the order of the source. \<open>abs\<close> is the absolute
  value of doubles (the overload of \<open>std::abs\<close> that \<open>using namespace std\<close> brings in),
  and \<open>-x0 + x1\<close> negates before it adds.
\<close>

datatype error = OutOfRange | PathInfeasible | SingularPath

definition is_given_inputs_feasible :: "coord \<Rightarrow> coord \<Rightarrow> coord \<Rightarrow> error + bool" where
  "is_given_inputs_feasible pos_init pos_des L =
     (let x0 = cx pos_init; x1 = cx pos_des; y0 = cy pos_init; y1 = cy pos_des;
          a = fsub y0 y1;
          b = fadd (fneg x0) x1;
          c = fsub (fmul y0 (fsub x0 x1)) (fmul (fsub y0 y1) x0);
          d = fdiv (fabs c) (fsqrt (fadd (fmul a a) (fmul b b)))
      in if fgt (norm2d x0 y0) (fadd (cx L) (cy L))
            \<or> flt (norm2d x0 y0) (fabs (fsub (cx L) (cy L)))
            \<or> fgt (norm2d x1 y1) (fadd (cx L) (cy L))
            \<or> flt (norm2d x1 y1) (fabs (fsub (cx L) (cy L)))
         then Inl OutOfRange
         else if flt d (fabs (fsub (cx L) (cy L))) then Inl PathInfeasible
         else if feq (cx L) (cy L) \<and> feq d (lit 0) then Inl SingularPath
         else Inr True)"

subsection \<open>The main simulation\<close>

text \<open>
  What the run writes to the standard output, in order. A line of text is kept as it
  is; a row of the table is kept as the four numbers it shows (two angles, two
  coordinates) and the annotation after them, before \<open>prd\<close> formats the numbers.
\<close>

datatype out = Text string | Row double double double double string

definition prompts :: "out list" where
  "prompts =
     [Text ''Type the x coordinate of the initial position of the end-effector:'',
      Text ''Type the y coordinate of the initial position of the end-effector:'',
      Text ''Type the x coordinate of the desired position of the end-effector:'',
      Text ''Type the y coordinate of the desired position of the end-effector:'',
      Text ''Type the length of the first link:'',
      Text ''Type the length of the second link:'']"

fun message :: "error \<Rightarrow> string" where
  "message OutOfRange = ''Position(s) is(are) not in the operable range. Terminating ...''"
| "message PathInfeasible = ''Straight-line trajectory is not possible. Terminating ...''"
| "message SingularPath =
     ''Straight-line trajectory includes a singular point. Terminating ...''"

definition center :: "string \<Rightarrow> int \<Rightarrow> string" where
  "center s w =
     (let padding = w - int (length s);
          spaces = replicate (nat (padding div 2)) (CHR '' '')
      in spaces @ s @ spaces @ (if 0 < padding \<and> padding mod 2 \<noteq> 0 then '' '' else []))"

definition header :: "out list" where
  "header =
     [Text (center ''Angle 1 [rad]'' 13 @ '' | '' @ center ''Angle 2 [rad]'' 13 @ '' | ''
            @ center ''x, end-effector'' 15 @ '' | '' @ center ''y, end-effector'' 15),
      Text (replicate (15 * 2 + 15 * 2 + 2 * 4) (CHR ''-''))]"

text \<open>The number of segments, \<open>double N = 50.0\<close>.\<close>

definition N :: double where
  "N = lit 50"

text \<open>The position that the loop body computes for the counter \<open>i\<close>.\<close>

definition pos_des_local :: "double \<Rightarrow> coord \<Rightarrow> coord \<Rightarrow> coord" where
  "pos_des_local i pos_init pos_des =
     \<lparr>cx = fadd (cx pos_init)
               (fdiv (fmul (fsub (cx pos_des) (cx pos_init)) (fadd i (lit 1))) N),
      cy = fadd (cy pos_init)
               (fdiv (fmul (fsub (cy pos_des) (cy pos_init)) (fadd i (lit 1))) N)\<rparr>"

definition row :: "double \<Rightarrow> coord \<Rightarrow> coord \<Rightarrow> coord \<Rightarrow> out" where
  "row i pos_init pos_des L =
     (let p = pos_des_local i pos_init pos_des;
          angle_des = from_pos_to_angle p L
      in Row (cx angle_des) (cy angle_des) (cx p) (cy p)
           (if feq i (fsub N (lit 1)) then '' (final)'' else []))"

text \<open>
  The loop \<open>for (double i = 0; i < N; i++)\<close>. Its counter is a double, so whether it
  ends is a fact about the arithmetic: the result is \<open>None\<close> if it does not.
\<close>

partial_function (option) loop :: "double \<Rightarrow> coord \<Rightarrow> coord \<Rightarrow> coord \<Rightarrow> out list option" where
  "loop i pos_init pos_des L =
     (if flt i N
      then Option.bind (loop (fadd i (lit 1)) pos_init pos_des L)
             (\<lambda>rest. Some (row i pos_init pos_des L # rest))
      else Some [])"

text \<open>
  \<open>main\<close>, from the three pairs that the prompts have read: the output and the exit
  status of the process. Falling off the end of \<open>main\<close> is status 0, as \<open>exit(0)\<close> is.
\<close>

definition main :: "coord \<Rightarrow> coord \<Rightarrow> coord \<Rightarrow> (out list \<times> int) option" where
  "main pos_init pos_des L =
     (case is_given_inputs_feasible pos_init pos_des L of
        Inl e \<Rightarrow> Some (prompts @ [Text (message e)], 0)
      | Inr feasibility \<Rightarrow>
          (let angle_init = from_pos_to_angle pos_init L in
           Option.bind (loop (lit 0) pos_init pos_des L)
             (\<lambda>rows. Some (prompts @ header
                @ [Row (cx angle_init) (cy angle_init) (cx pos_init) (cy pos_init)
                     '' (initial)'']
                @ rows, 0))))"

text \<open>The reported sequence: the position and the joint angles of every row.\<close>

fun entries :: "out list \<Rightarrow> (coord \<times> coord) list" where
  "entries [] = []"
| "entries (Text s # os) = entries os"
| "entries (Row t1 t2 px py s # os) = (\<lparr>cx = px, cy = py\<rparr>, \<lparr>cx = t1, cy = t2\<rparr>) # entries os"

section \<open>Notions of the specification\<close>

text \<open>
  A position is reachable when its norm lies between \<open>|L1 - L2|\<close> and \<open>L1 + L2\<close>, both
  comparisons made on doubles.
\<close>

definition reachable :: "coord \<Rightarrow> coord \<Rightarrow> bool" where
  "reachable p L \<longleftrightarrow>
     fle (fabs (fsub (cx L) (cy L))) (norm2d (cx p) (cy p))
     \<and> fle (norm2d (cx p) (cy p)) (fadd (cx L) (cy L))"

text \<open>
  The distance \<open>d = |c| / sqrt(a\<^sup>2 + b\<^sup>2)\<close> of the origin to the line through the two
  positions, with \<open>a = y0 - y1\<close>, \<open>b = x1 - x0\<close> and \<open>c = y0 (x0 - x1) - (y0 - y1) x0\<close>,
  and its divisor.
\<close>

definition line_divisor :: "coord \<Rightarrow> coord \<Rightarrow> double" where
  "line_divisor pos_init pos_des =
     (let a = fsub (cy pos_init) (cy pos_des);
          b = fsub (cx pos_des) (cx pos_init)
      in fsqrt (fadd (fmul a a) (fmul b b)))"

definition line_distance :: "coord \<Rightarrow> coord \<Rightarrow> double" where
  "line_distance pos_init pos_des =
     (let x0 = cx pos_init; x1 = cx pos_des; y0 = cy pos_init; y1 = cy pos_des;
          c = fsub (fmul y0 (fsub x0 x1)) (fmul (fsub y0 y1) x0)
      in fdiv (fabs c) (line_divisor pos_init pos_des))"

text \<open>A value that is zero or positive, or the positive infinity.\<close>

fun nonneg :: "double \<Rightarrow> bool" where
  "nonneg (Num s m) = (\<not> s \<and> 0 \<le> m)"
| "nonneg (Infty s) = (\<not> s)"
| "nonneg NaN = False"

text \<open>
  The forward kinematics of the two links, on doubles and on real numbers:
  \<open>x = L1 cos \<theta>1 + L2 cos (\<theta>1 + \<theta>2)\<close> and \<open>y = L1 sin \<theta>1 + L2 sin (\<theta>1 + \<theta>2)\<close>.
\<close>

definition forward_kinematics :: "coord \<Rightarrow> coord \<Rightarrow> coord" where
  "forward_kinematics angles L =
     \<lparr>cx = fadd (fmul (cx L) (fcos (cx angles)))
               (fmul (cy L) (fcos (fadd (cx angles) (cy angles)))),
      cy = fadd (fmul (cx L) (fsin (cx angles)))
               (fmul (cy L) (fsin (fadd (cx angles) (cy angles))))\<rparr>"

definition forward_kinematics_real :: "real \<times> real \<Rightarrow> real \<times> real \<Rightarrow> real \<times> real" where
  "forward_kinematics_real angles L =
     (fst L * cos (fst angles) + snd L * cos (fst angles + snd angles),
      fst L * sin (fst angles) + snd L * sin (fst angles + snd angles))"

text \<open>
  The two formulas of the specification over the real numbers, every operation exact:
  \<open>\<theta>2 = arccos ((x\<^sup>2 + y\<^sup>2 - L1\<^sup>2 - L2\<^sup>2) / (2 L1 L2))\<close> and
  \<open>\<theta>1 = atan2 (y, x) - atan2 (L2 sin \<theta>2, L1 + L2 cos \<theta>2)\<close>. This is what the
  claims call the value of the formulas; \<open>from_pos_to_angle\<close> is what the program
  computes.
\<close>

definition from_pos_to_angle_real :: "real \<times> real \<Rightarrow> real \<times> real \<Rightarrow> real \<times> real" where
  "from_pos_to_angle_real pos L =
     (let theta2 = arccos ((fst pos * fst pos + snd pos * snd pos - fst L * fst L
                            - snd L * snd L) / (2 * fst L * snd L));
          theta1 = atan2 (snd pos) (fst pos)
                   - atan2 (snd L * sin theta2) (fst L + snd L * cos theta2)
      in (theta1, theta2))"

text \<open>
  The argument that \<open>from_pos_to_angle\<close> passes to \<open>acos\<close>, the quotient
  \<open>(x\<^sup>2 + y\<^sup>2 - L1\<^sup>2 - L2\<^sup>2) / (2 L1 L2)\<close> in doubles, and the domain \<open>[-1, 1]\<close> of
  the arc cosine.
\<close>

definition acos_arg :: "coord \<Rightarrow> coord \<Rightarrow> double" where
  "acos_arg pos L =
     fdiv (fsub (fsub (fadd (fmul (cx pos) (cx pos)) (fmul (cy pos) (cy pos)))
                      (fmul (cx L) (cx L)))
                (fmul (cy L) (cy L)))
          (fmul (fmul (lit 2) (cx L)) (cy L))"

definition in_acos_domain :: "double \<Rightarrow> bool" where
  "in_acos_domain q \<longleftrightarrow> fle (fneg (lit 1)) q \<and> fle q (lit 1)"

text \<open>
  The point whose angle the second \<open>atan2\<close> of \<open>from_pos_to_angle\<close> takes,
  \<open>(L1 + L2 cos \<theta>2, L2 sin \<theta>2)\<close> in doubles.
\<close>

definition elbow :: "coord \<Rightarrow> coord \<Rightarrow> coord" where
  "elbow pos L =
     (let theta2 = cy (from_pos_to_angle pos L)
      in \<lparr>cx = fadd (cx L) (fmul (cy L) (fcos theta2)),
          cy = fmul (cy L) (fsin theta2)\<rparr>)"

text \<open>
  A double that is a real number up to one unit in the last place: it is finite, and it is
  away from the number by at most the number's magnitude times \<open>2 powi (- 52)\<close>, plus the
  spacing \<open>2 powi (- 1074)\<close> of the smallest doubles.
\<close>

definition within_ulp :: "double \<Rightarrow> real \<Rightarrow> bool" where
  "within_ulp d v \<longleftrightarrow> is_finite d \<and> \<bar>valof d - v\<bar> \<le> \<bar>v\<bar> / 2 ^ 52 + 2 powi (- 1074)"

text \<open>
  The waypoint \<open>p\<^sub>i = start + ((goal - start) \<cdot> i) / 50\<close>, each operation rounded, in
  the order in which the loop body applies them.
\<close>

definition waypoint :: "nat \<Rightarrow> coord \<Rightarrow> coord \<Rightarrow> coord" where
  "waypoint i start goal =
     \<lparr>cx = fadd (cx start) (fdiv (fmul (fsub (cx goal) (cx start)) (lit (real i))) (lit 50)),
      cy = fadd (cy start) (fdiv (fmul (fsub (cy goal) (cy start)) (lit (real i))) (lit 50))\<rparr>"

text \<open>A list of window sizes that halve down to one, as the bisection of \<open>expo\<close> uses.\<close>

fun halving :: "int list \<Rightarrow> int \<Rightarrow> bool" where
  "halving [] W = (W = 1)"
| "halving (w # ws) W = (W = 2 * w \<and> halving ws w)"

text \<open>
  A real number is exact when it is a double already: its magnitude is below the
  overflow threshold and rounding does not change it. A double proper is a finite
  value with such a magnitude, and it represents the number that is its value.
\<close>

definition exact :: "real \<Rightarrow> bool" where
  "exact v \<longleftrightarrow> round_mag \<bar>v\<bar> = \<bar>v\<bar> \<and> \<bar>v\<bar> < 2 ^ 1024"

fun is_double :: "double \<Rightarrow> bool" where
  "is_double (Num s m) = (0 \<le> m \<and> exact m)"
| "is_double (Infty s) = False"
| "is_double NaN = False"

definition represents :: "double \<Rightarrow> real \<Rightarrow> bool" where
  "represents d v \<longleftrightarrow> (\<exists>s. d = Num s \<bar>v\<bar> \<and> (v \<noteq> 0 \<longrightarrow> s = (v < 0)))"

text \<open>A value whose magnitude is not negative, as every double is.\<close>

fun mag_ok :: "double \<Rightarrow> bool" where
  "mag_ok (Num s m) = (0 \<le> m)"
| "mag_ok (Infty s) = True"
| "mag_ok NaN = True"

text \<open>
  The square of a double underflows when it is rounded to zero, which is when twice the
  squared magnitude is at most the smallest subnormal \<open>2 powi (- 1074)\<close>. A magnitude
  is granular when it is zero or at least that subnormal, as every rounded magnitude
  is; a double is like a square when it is not negative, granular and not a NaN.
\<close>

fun square_underflows :: "double \<Rightarrow> bool" where
  "square_underflows (Num s m) = (2 * (m * m) \<le> 2 powi (- 1074))"
| "square_underflows (Infty s) = False"
| "square_underflows NaN = False"

fun is_zero :: "double \<Rightarrow> bool" where
  "is_zero (Num s m) = (m = 0)"
| "is_zero (Infty s) = False"
| "is_zero NaN = False"

definition granular :: "real \<Rightarrow> bool" where
  "granular r \<longleftrightarrow> r = 0 \<or> 2 powi (- 1074) \<le> r"

definition square_like :: "double \<Rightarrow> bool" where
  "square_like d \<longleftrightarrow>
     (\<exists>r. d = Num False r \<and> granular r \<and> 0 \<le> r \<and> r < 2 ^ 1024) \<or> d = Infty False"

text \<open>The constant \<open>M_PI\<close> of \<open>math.h\<close>, the double nearest to \<open>\<pi>\<close>.\<close>

definition M_PI :: double where
  "M_PI = round_real pi"

section \<open>Evaluating the arithmetic\<close>

lemma two_powi: "(2::real) powi e = (if 0 \<le> e then 2 ^ nat e else 1 / 2 ^ nat (- e))"
  by (simp add: power_int_def power_one_over inverse_eq_divide)

lemmas ev = lit_def round_real_def mk_def round_mag_def quantum_def expo_def rne_def
  two_powi fsub_def fgt_def fle_def sqrt_mag_def isqrt.simps norm2d_def N_def

section \<open>The binary exponent\<close>

lemma two_powi_less: "(2::real) powi a < 2 powi b \<Longrightarrow> a < b"
  using power_int_increasing [of b a "2::real"] by (cases "b \<le> a") auto

lemma two_powi_le: "(2::real) powi a \<le> 2 powi b \<Longrightarrow> a \<le> b"
  using power_int_strict_increasing [of b a "2::real"] by (cases "b < a") auto

lemma halving_pos: "halving ws W \<Longrightarrow> 0 < W"
  by (induction ws arbitrary: W) auto

lemma halving_expo: "halving [2048, 1024, 512, 256, 128, 64, 32, 16, 8, 4, 2, 1] 4096"
  by simp

lemma expo_search_bounds:
  "halving ws W \<Longrightarrow> 2 powi lo \<le> m \<Longrightarrow> m < 2 powi (lo + W) \<Longrightarrow>
     2 powi (expo_search ws lo m) \<le> m \<and> m < 2 powi (expo_search ws lo m + 1)"
proof (induction ws arbitrary: lo W)
  case Nil
  then show ?case by simp
next
  case (Cons w ws)
  then have W: "W = 2 * w" and h: "halving ws w" by simp_all
  show ?case
  proof (cases "2 powi (lo + w) \<le> m")
    case True
    have "m < 2 powi (lo + w + w)" using Cons.prems(3) W by (simp add: algebra_simps)
    then show ?thesis using Cons.IH [OF h True] True by simp
  next
    case False
    then have "m < 2 powi (lo + w)" by simp
    then show ?thesis using Cons.IH [OF h Cons.prems(2)] False by simp
  qed
qed

lemma expo_bounds:
  assumes "2 powi (- 2048) \<le> m" "m < 2 powi 2048"
  shows "2 powi (expo m) \<le> m" and "m < 2 powi (expo m + 1)"
proof -
  have h: "halving [2048, 1024, 512, 256, 128, 64, 32, 16, 8, 4, 2, 1] 4096" by simp
  have "m < 2 powi (- 2048 + 4096)" using assms(2) by simp
  from expo_search_bounds [OF h assms(1) this]
  show "2 powi (expo m) \<le> m" and "m < 2 powi (expo m + 1)"
    by (simp_all add: expo_def)
qed

lemma expo_search_range:
  "halving ws W \<Longrightarrow> lo \<le> expo_search ws lo m \<and> expo_search ws lo m < lo + W"
proof (induction ws arbitrary: lo W)
  case Nil
  then show ?case by simp
next
  case (Cons w ws)
  then have W: "W = 2 * w" and h: "halving ws w" by simp_all
  have w: "0 < w" using h by (rule halving_pos)
  show ?case
    using Cons.IH [OF h, of "lo + w"] Cons.IH [OF h, of lo] W w by auto
qed

lemma expo_search_mono:
  "halving ws W \<Longrightarrow> x \<le> y \<Longrightarrow> expo_search ws lo x \<le> expo_search ws lo y"
proof (induction ws arbitrary: lo W)
  case Nil
  then show ?case by simp
next
  case (Cons w ws)
  then have W: "W = 2 * w" and h: "halving ws w" by simp_all
  show ?case
  proof (cases "2 powi (lo + w) \<le> x")
    case True
    then have "2 powi (lo + w) \<le> y" using Cons.prems(2) by simp
    then show ?thesis using True Cons.IH [OF h Cons.prems(2)] by simp
  next
    case False
    show ?thesis
    proof (cases "2 powi (lo + w) \<le> y")
      case True
      have "expo_search ws lo x < lo + w"
        using expo_search_range [OF h, of lo x] by simp
      also have "lo + w \<le> expo_search ws (lo + w) y"
        using expo_search_range [OF h, of "lo + w" y] by simp
      finally show ?thesis using True False by simp
    next
      case F2: False
      then show ?thesis using False Cons.IH [OF h Cons.prems(2)] by simp
    qed
  qed
qed

lemma expo_mono: "x \<le> y \<Longrightarrow> expo x \<le> expo y"
  unfolding expo_def by (rule expo_search_mono [OF halving_expo])

lemma expo_range: "- 2048 \<le> expo m" "expo m \<le> 2047"
  using expo_search_range [OF halving_expo, of "- 2048" m] by (simp_all add: expo_def)

lemma expo_search_below: "halving ws W \<Longrightarrow> m < 2 powi lo \<Longrightarrow> expo_search ws lo m = lo"
proof (induction ws arbitrary: W)
  case Nil
  then show ?case by simp
next
  case (Cons w ws)
  then have h: "halving ws w" by simp
  have "0 < w" using h by (rule halving_pos)
  then have "(2::real) powi lo \<le> 2 powi (lo + w)"
    by (intro power_int_increasing) simp_all
  then have "\<not> 2 powi (lo + w) \<le> m" using Cons.prems(2) by simp
  then show ?case using Cons.IH [OF h Cons.prems(2)] by simp
qed

text \<open>
  The lower bound holds for every magnitude that is not tiny, the upper one for every
  magnitude that is not huge.
\<close>

lemma expo_search_lower:
  "halving ws W \<Longrightarrow> 2 powi lo \<le> m \<Longrightarrow> 2 powi (expo_search ws lo m) \<le> m"
proof (induction ws arbitrary: lo W)
  case Nil
  then show ?case by simp
next
  case (Cons w ws)
  then have h: "halving ws w" by simp
  show ?case
    using Cons.IH [OF h, of "lo + w"] Cons.IH [OF h Cons.prems(2)] by simp
qed

lemma expo_search_upper:
  "halving ws W \<Longrightarrow> m < 2 powi (lo + W) \<Longrightarrow> m < 2 powi (expo_search ws lo m + 1)"
proof (induction ws arbitrary: lo W)
  case Nil
  then show ?case by simp
next
  case (Cons w ws)
  then have W: "W = 2 * w" and h: "halving ws w" by simp_all
  show ?case
  proof (cases "2 powi (lo + w) \<le> m")
    case True
    have u: "m < 2 powi (lo + w + w)" using Cons.prems(2) W by (simp add: algebra_simps)
    show ?thesis using Cons.IH [OF h u] True by simp
  next
    case False
    then have u: "m < 2 powi (lo + w)" by simp
    show ?thesis using Cons.IH [OF h u] False by simp
  qed
qed

lemma expo_lower: "2 powi (- 2048) \<le> m \<Longrightarrow> 2 powi (expo m) \<le> m"
  unfolding expo_def by (rule expo_search_lower [OF halving_expo])

lemma expo_upper: "m < 2 powi 2048 \<Longrightarrow> m < 2 powi (expo m + 1)"
  unfolding expo_def using expo_search_upper [OF halving_expo, of m "- 2048"] by simp

lemma expo_tiny: "m < 2 powi (- 2048) \<Longrightarrow> expo m = - 2048"
  unfolding expo_def by (rule expo_search_below [OF halving_expo])

lemma expo_huge:
  assumes "2 powi 2047 \<le> m"
  shows "expo m = 2047"
proof -
  have "2 powi (expo (2 powi 2047)) \<le> (2::real) powi 2047"
    "(2::real) powi 2047 < 2 powi (expo (2 powi 2047) + 1)"
    using expo_bounds [of "2 powi 2047"] by simp_all
  then have "expo (2 powi 2047) = 2047"
    using two_powi_le two_powi_less by fastforce
  then have "2047 \<le> expo m"
    using expo_mono [OF assms] by simp
  then show ?thesis using expo_range(2) [of m] by simp
qed

section \<open>Rounding\<close>

subsection \<open>Rounding keeps what is representable\<close>

lemma rne_of_int [simp]: "rne (of_int j) = j"
  by (simp add: rne_def)

lemma rne_nonneg: "0 \<le> q \<Longrightarrow> 0 \<le> rne q"
  by (simp add: rne_def Let_def)

lemma round_mag_nonneg: "0 \<le> m \<Longrightarrow> 0 \<le> round_mag m"
  by (simp add: round_mag_def rne_nonneg)

text \<open>
  A magnitude \<open>k \<cdot> 2 powi q\<close> with \<open>k\<close> of at most 53 bits and \<open>q\<close> not below the
  subnormal exponent is a double already: rounding does not change it.
\<close>

lemma round_mag_exact:
  assumes k: "0 < k" "k < 2 ^ 53" and q: "- 1074 \<le> q"
    and hi: "of_int k * 2 powi q < (2::real) powi 2048"
  shows "round_mag (of_int k * 2 powi q) = of_int k * 2 powi q"
proof -
  define m :: real where "m = of_int k * 2 powi q"
  have mpos: "0 < m" using k by (simp add: m_def)
  have "(2::real) powi (- 2048) \<le> 2 powi q"
    using q by (intro power_int_increasing) simp_all
  also have "\<dots> \<le> m"
    using k by (simp add: m_def)
  finally have lo: "2 powi (- 2048) \<le> m" .
  note eb = expo_bounds [OF lo hi [folded m_def]]
  have "m < 2 ^ 53 * 2 powi q"
    using k by (simp add: m_def)
  also have "\<dots> = 2 powi (53 + q)"
    by (simp add: power_int_add)
  finally have "2 powi (expo m) < (2::real) powi (53 + q)"
    using eb(1) by simp
  then have "expo m < 53 + q" by (rule two_powi_less)
  then have Q: "quantum m \<le> q" using q by (simp add: quantum_def)
  define j where "j = k * 2 ^ nat (q - quantum m)"
  have "m / 2 powi quantum m = of_int k * 2 powi (q - quantum m)"
    by (simp add: m_def power_int_diff)
  also have "\<dots> = of_int j"
    using Q by (simp add: j_def power_int_def)
  finally have d: "m / 2 powi quantum m = of_int j" .
  have "round_mag m = of_int j * 2 powi quantum m"
    using mpos by (simp add: round_mag_def d)
  also have "\<dots> = m"
    using d by (simp add: field_simps)
  finally show ?thesis by (simp add: m_def)
qed

lemma round_mag_of_nat:
  assumes "n < 2 ^ 53"
  shows "round_mag (real n) = real n"
proof (cases "n = 0")
  case True
  then show ?thesis by (simp add: round_mag_def)
next
  case False
  have "real n < 2 ^ 53" using assms by (metis of_nat_less_iff of_nat_numeral of_nat_power)
  also have "\<dots> < (2::real) powi 2048" by simp
  finally have "real_of_int (int n) * 2 powi 0 < 2 powi 2048" by simp
  from round_mag_exact [of "int n" 0, OF _ _ _ this] False assms
  show ?thesis by simp
qed

lemma mk_of_nat: "n < 2 ^ 53 \<Longrightarrow> mk s (real n) = Num s (real n)"
proof -
  assume n: "n < 2 ^ 53"
  then have "real n < 2 ^ 53" by (metis of_nat_less_iff of_nat_numeral of_nat_power)
  then have "\<not> (2::real) ^ 1024 \<le> real n" by simp
  then show ?thesis
    using round_mag_of_nat [OF n] by (simp add: mk_def)
qed

lemma lit_of_nat: "n < 2 ^ 53 \<Longrightarrow> lit (real n) = Num False (real n)"
  by (simp add: lit_def round_real_def mk_of_nat)

lemma lit_small [simp]: "lit 0 = Num False 0" "lit 1 = Num False 1" "lit 50 = Num False 50"
  using lit_of_nat [of 0] lit_of_nat [of 1] lit_of_nat [of 50] by simp_all

lemma counter_step: "k < 50 \<Longrightarrow> fadd (Num False (real k)) (lit 1) = Num False (real (Suc k))"
proof -
  assume "k < 50"
  then have "Suc k < 2 ^ 53" by simp
  from mk_of_nat [OF this, of False] have "mk False (real k + 1) = Num False (real (Suc k))"
    by (simp add: add.commute)
  moreover have "real k + 1 \<noteq> 0" "\<not> real k + 1 < 0" "\<bar>real k + 1\<bar> = real k + 1"
    by simp_all
  ultimately show ?thesis by (simp del: of_nat_Suc)
qed

subsection \<open>Rounding is monotone\<close>

lemma rne_mono: "a \<le> b \<Longrightarrow> rne a \<le> rne b"
proof -
  assume ab: "a \<le> b"
  have fl: "\<lfloor>a\<rfloor> \<le> \<lfloor>b\<rfloor>" using ab by (rule floor_mono)
  show ?thesis
  proof (cases "\<lfloor>a\<rfloor> = \<lfloor>b\<rfloor>")
    case True
    then have "a - of_int \<lfloor>a\<rfloor> \<le> b - of_int \<lfloor>b\<rfloor>" using ab by simp
    then show ?thesis using True by (auto simp: rne_def Let_def)
  next
    case False
    then have "\<lfloor>a\<rfloor> + 1 \<le> \<lfloor>b\<rfloor>" using fl by simp
    moreover have "rne a \<le> \<lfloor>a\<rfloor> + 1" by (auto simp: rne_def Let_def)
    moreover have "\<lfloor>b\<rfloor> \<le> rne b" by (auto simp: rne_def Let_def)
    ultimately show ?thesis by linarith
  qed
qed

lemma rne_le_int: "a \<le> of_int n \<Longrightarrow> rne a \<le> n"
  using rne_mono [of a "of_int n"] by simp

lemma rne_ge_int: "of_int n \<le> a \<Longrightarrow> n \<le> rne a"
  using rne_mono [of "of_int n" a] by simp

lemma quantum_ge: "- 1074 \<le> quantum x"
  by (simp add: quantum_def)

lemma quantum_mono: "x \<le> y \<Longrightarrow> quantum x \<le> quantum y"
  using expo_mono [of x y] by (simp add: quantum_def)

text \<open>A rounded magnitude stays between the powers of two around it.\<close>

lemma round_mag_upper:
  assumes "0 < x" "x < 2 powi 2048"
  shows "round_mag x \<le> 2 powi (max (expo x + 1) (quantum x))"
proof -
  define e where "e = max (expo x + 1) (quantum x)"
  have qe: "quantum x \<le> e" by (simp add: e_def)
  have "x < 2 powi (expo x + 1)" using assms(2) by (rule expo_upper)
  also have "\<dots> \<le> 2 powi e"
    by (intro power_int_increasing) (simp_all add: e_def)
  finally have "x / 2 powi quantum x \<le> 2 powi e / 2 powi quantum x"
    by (simp add: divide_right_mono)
  also have "\<dots> = 2 powi (e - quantum x)"
    by (simp add: power_int_diff)
  also have "\<dots> = of_int (2 ^ nat (e - quantum x))"
    using qe by (simp add: power_int_def)
  finally have "rne (x / 2 powi quantum x) \<le> 2 ^ nat (e - quantum x)"
    by (rule rne_le_int)
  then have "of_int (rne (x / 2 powi quantum x)) \<le> (2::real) ^ nat (e - quantum x)"
    by (metis of_int_le_iff of_int_numeral of_int_power)
  also have "\<dots> = 2 powi (e - quantum x)"
    using qe by (simp add: power_int_def)
  finally have "of_int (rne (x / 2 powi quantum x)) * (2::real) powi quantum x
      \<le> 2 powi (e - quantum x) * 2 powi quantum x"
    by (simp add: mult_right_mono)
  also have "\<dots> = 2 powi e"
    by (simp flip: power_int_add)
  finally show ?thesis using assms(1) by (simp add: round_mag_def e_def)
qed

lemma round_mag_lower:
  assumes "2 powi e \<le> x" "quantum x \<le> e"
  shows "2 powi e \<le> round_mag x"
proof -
  have xpos: "0 < x"
    using assms(1) by (rule less_le_trans [rotated]) simp
  have "of_int (2 ^ nat (e - quantum x)) = (2::real) powi (e - quantum x)"
    using assms(2) by (simp add: power_int_def)
  also have "\<dots> = 2 powi e / 2 powi quantum x"
    by (simp add: power_int_diff)
  also have "\<dots> \<le> x / 2 powi quantum x"
    using assms(1) by (simp add: divide_right_mono)
  finally have "2 ^ nat (e - quantum x) \<le> rne (x / 2 powi quantum x)"
    by (rule rne_ge_int)
  then have "(2::real) ^ nat (e - quantum x) \<le> of_int (rne (x / 2 powi quantum x))"
    by (metis of_int_le_iff of_int_numeral of_int_power)
  then have "(2::real) powi (e - quantum x) \<le> of_int (rne (x / 2 powi quantum x))"
    using assms(2) by (simp add: power_int_def)
  then have "(2::real) powi (e - quantum x) * 2 powi quantum x
      \<le> of_int (rne (x / 2 powi quantum x)) * 2 powi quantum x"
    by (simp add: mult_right_mono)
  moreover have "2 powi (e - quantum x) * (2::real) powi quantum x = 2 powi e"
    by (simp flip: power_int_add)
  ultimately show ?thesis using xpos by (simp add: round_mag_def)
qed

lemma round_mag_mono:
  assumes "0 \<le> x" "x \<le> y"
  shows "round_mag x \<le> round_mag y"
proof (cases "x = 0")
  case True
  then show ?thesis using assms by (simp add: round_mag_def rne_def Let_def)
next
  case False
  then have xpos: "0 < x" and ypos: "0 < y" using assms by simp_all
  show ?thesis
  proof (cases "quantum x = quantum y")
    case True
    have "x / 2 powi quantum y \<le> y / 2 powi quantum y"
      using assms(2) by (simp add: divide_right_mono)
    then have "rne (x / 2 powi quantum y) \<le> rne (y / 2 powi quantum y)"
      by (rule rne_mono)
    then show ?thesis
      using xpos ypos True by (simp add: round_mag_def mult_right_mono)
  next
    case False
    then have q: "quantum x < quantum y" using quantum_mono [OF assms(2)] by simp
    then have ex: "expo x < expo y" and qy: "quantum y = expo y - 52" and sub: "- 1074 < expo y - 52"
      by (auto simp: quantum_def max_def split: if_splits)
    have e47: "expo x < 2047" using ex expo_range(2) [of y] by simp
    have xs: "x < 2 powi 2048"
    proof (rule ccontr)
      assume "\<not> x < 2 powi 2048"
      then have "(2::real) powi 2048 \<le> x" by simp
      moreover have "(2::real) powi 2047 \<le> 2 powi 2048" by simp
      ultimately have "2 powi 2047 \<le> x" by (rule order_trans [rotated])
      then have "expo x = 2047" by (rule expo_huge)
      then show False using e47 by simp
    qed
    have yl: "2 powi (- 2048) \<le> y"
    proof (rule ccontr)
      assume "\<not> 2 powi (- 2048) \<le> y"
      then have "expo y = - 2048" by (simp add: expo_tiny)
      then show False using sub by simp
    qed
    have "round_mag x \<le> 2 powi (max (expo x + 1) (quantum x))"
      using xpos xs by (rule round_mag_upper)
    also have "\<dots> \<le> 2 powi (expo y)"
      using ex q qy by (intro power_int_increasing) simp_all
    also have "\<dots> \<le> round_mag y"
      using expo_lower [OF yl] qy by (intro round_mag_lower) simp_all
    finally show ?thesis .
  qed
qed

subsection \<open>Rounding to zero\<close>

lemma round_mag_granular: "0 \<le> x \<Longrightarrow> granular (round_mag x)"
proof -
  assume x: "0 \<le> x"
  define k where "k = rne (x / 2 powi quantum x)"
  have k: "0 \<le> k" using x by (simp add: k_def rne_nonneg)
  show ?thesis
  proof (cases "x = 0 \<or> k = 0")
    case True
    then show ?thesis by (auto simp: granular_def round_mag_def k_def)
  next
    case False
    then have "1 \<le> real_of_int k" using k by simp
    then have "1 * 2 powi quantum x \<le> real_of_int k * 2 powi quantum x"
      by (intro mult_right_mono) simp_all
    then have "2 powi quantum x \<le> real_of_int k * 2 powi quantum x"
      by (simp only: mult_1)
    moreover have "(2::real) powi (- 1074) \<le> 2 powi quantum x"
      by (intro power_int_increasing quantum_ge) simp
    ultimately have "(2::real) powi (- 1074) \<le> real_of_int k * 2 powi quantum x"
      by (rule order_trans [rotated])
    then show ?thesis using False by (simp add: granular_def round_mag_def k_def)
  qed
qed

lemma round_mag_pos:
  assumes "2 powi (- 1074) \<le> x"
  shows "2 powi (- 1074) \<le> round_mag x"
proof (cases "quantum x = - 1074")
  case True
  show ?thesis using assms True by (intro round_mag_lower) (simp_all only: order_refl)
next
  case False
  then have q: "quantum x = expo x - 52" "- 1074 < expo x - 52"
    using quantum_ge [of x] by (auto simp: quantum_def max_def split: if_splits)
  have "(2::real) powi (- 2048) \<le> 2 powi (- 1074)" by (intro power_int_increasing) simp_all
  then have "2 powi (- 2048) \<le> x" using assms by (rule order_trans)
  then have "2 powi (expo x) \<le> x" by (rule expo_lower)
  then have "2 powi (expo x) \<le> round_mag x"
    using q by (intro round_mag_lower) simp_all
  moreover have "(2::real) powi (- 1074) \<le> 2 powi (expo x)"
    using q by (intro power_int_increasing) simp_all
  ultimately show ?thesis by (rule order_trans [rotated])
qed

lemma expo_below_subnormal:
  assumes "x < 2 powi (- 1074)"
  shows "quantum x = - 1074"
proof -
  have "expo x < - 1074"
  proof (cases "2 powi (- 2048) \<le> x")
    case True
    then have "2 powi (expo x) \<le> x" by (rule expo_lower)
    then have "2 powi (expo x) < (2::real) powi (- 1074)" using assms by (rule le_less_trans)
    then show ?thesis by (rule two_powi_less)
  next
    case False
    then have "x < 2 powi (- 2048)" by (simp only: not_le)
    then show ?thesis by (simp add: expo_tiny)
  qed
  then show ?thesis by (simp add: quantum_def)
qed

text \<open>
  A magnitude is rounded to zero exactly when it is at most half the smallest subnormal.
\<close>

lemma round_mag_zero_iff:
  assumes "0 \<le> x"
  shows "round_mag x = 0 \<longleftrightarrow> 2 * x \<le> 2 powi (- 1074)"
proof -
  define u :: real where "u = 2 powi (- 1074)"
  have upos: "0 < u" by (simp only: u_def zero_less_power_int zero_less_numeral)
  show ?thesis
  proof (cases "x < u")
    case True
    then have q: "quantum x = - 1074" unfolding u_def by (rule expo_below_subnormal)
    have r: "round_mag x = (if x = 0 then 0 else of_int (rne (x / u)) * u)"
      by (simp only: round_mag_def q u_def)
    have xu: "0 \<le> x / u" "x / u < 1" using assms True upos by simp_all
    then have fl: "\<lfloor>x / u\<rfloor> = 0" by (intro floor_unique) simp_all
    have "rne (x / u) = 0 \<longleftrightarrow> x / u \<le> 1 / 2"
      using upos by (auto simp: rne_def Let_def fl field_simps)
    also have "\<dots> \<longleftrightarrow> 2 * x \<le> u"
      using upos by (simp add: field_simps)
    finally have "rne (x / u) = 0 \<longleftrightarrow> 2 * x \<le> u" .
    then show ?thesis
      unfolding r u_def [symmetric] using upos assms by auto
  next
    case False
    then have "u \<le> x" by simp
    then have "u \<le> round_mag x" unfolding u_def by (rule round_mag_pos)
    then show ?thesis
      unfolding u_def [symmetric] using upos False assms by auto
  qed
qed

lemma isqrt_nonneg: "0 \<le> isqrt n"
proof (induction n rule: isqrt.induct)
  case (1 n)
  then show ?case by (subst isqrt.simps) (auto simp: Let_def)
qed

lemma sqrt_mag_pos:
  assumes "2 powi (- 1074) \<le> m" "m < 2 powi 2048"
  shows "0 < sqrt_mag m"
proof -
  define u where "u = expo m div 2 - 52"
  define q where "q = m / 2 powi (2 * u)"
  define k where "k = isqrt \<lfloor>q\<rfloor>"
  define h :: real where "h = of_int (k * k + k) + 1 / 4"
  define c where "c = (if q < h then k else if h < q then k + 1 else if even k then k else k + 1)"
  have mpos: "0 < m"
    using assms(1) by (rule less_le_trans [rotated]) (simp only: zero_less_power_int zero_less_numeral)
  have "(2::real) powi (- 2048) \<le> 2 powi (- 1074)" by (intro power_int_increasing) simp_all
  then have "2 powi (- 2048) \<le> m" using assms(1) by (rule order_trans)
  then have em: "2 powi (expo m) \<le> m" by (rule expo_lower)
  have "2 * u \<le> expo m" by (simp add: u_def)
  then have "(2::real) powi (2 * u) \<le> 2 powi (expo m)"
    by (intro power_int_increasing) simp_all
  then have "2 powi (2 * u) \<le> m" using em by (rule order_trans)
  then have q1: "1 \<le> q" by (simp add: q_def)
  have k0: "0 \<le> k" by (simp add: k_def isqrt_nonneg)
  have "1 \<le> c"
  proof (cases "k = 0")
    case True
    then have "h < q" using q1 by (simp add: h_def)
    then show ?thesis using True by (simp add: c_def)
  next
    case False
    then show ?thesis using k0 by (simp add: c_def)
  qed
  then have "0 < real_of_int c * 2 powi u" by simp
  moreover have "sqrt_mag m = real_of_int c * 2 powi u"
    using mpos by (simp add: sqrt_mag_def Let_def c_def h_def k_def q_def u_def)
  ultimately show ?thesis by simp
qed

section \<open>Special values and comparisons\<close>

lemma nan_right [simp]:
  "fadd a NaN = NaN" "fmul a NaN = NaN" "fdiv a NaN = NaN" "fatan2 a NaN = NaN"
  "\<not> flt a NaN" "\<not> feq a NaN"
  by (cases a; simp)+

lemma fadd_commute: "fadd a b = fadd b a"
  by (cases a; cases b) (auto simp: Let_def add.commute)

lemma fle_not_flt: "fle a b \<Longrightarrow> \<not> flt b a"
  by (cases a; cases b) (auto simp: fle_def)

lemma not_fle_flt: "\<not> is_nan a \<Longrightarrow> \<not> is_nan b \<Longrightarrow> \<not> fle a b \<Longrightarrow> flt b a"
  by (cases a; cases b) (auto simp: fle_def)

lemma mk_not_nan [simp]: "\<not> is_nan (mk s m)"
  by (simp add: mk_def Let_def)

lemma feq_zero: "feq d (lit 0) = is_zero d"
  by (cases d) auto

lemma nonneg_mk: "0 \<le> m \<Longrightarrow> nonneg (mk False m)"
  by (simp add: mk_def Let_def round_mag_nonneg)

lemma nonneg_square: "is_finite a \<Longrightarrow> nonneg (fmul a a)"
  by (cases a) (simp_all add: nonneg_mk)

lemma nonneg_fadd: "nonneg a \<Longrightarrow> nonneg b \<Longrightarrow> nonneg (fadd a b)"
  by (cases a; cases b) (auto simp: Let_def nonneg_mk)

lemma fsqrt_not_nan: "nonneg a \<Longrightarrow> \<not> is_nan (fsqrt a)"
  by (cases a) auto

lemma norm2d_not_nan: "is_finite a \<Longrightarrow> is_finite b \<Longrightarrow> \<not> is_nan (norm2d a b)"
  by (simp add: norm2d_def fsqrt_not_nan nonneg_fadd nonneg_square)

lemma fadd_finite_not_nan: "is_finite a \<Longrightarrow> is_finite b \<Longrightarrow> \<not> is_nan (fadd a b)"
  by (cases a; cases b) (auto simp: Let_def)

lemma fsub_finite_not_nan: "is_finite a \<Longrightarrow> is_finite b \<Longrightarrow> \<not> is_nan (fsub a b)"
  by (cases a; cases b) (auto simp: Let_def fsub_def)

lemma fabs_not_nan: "\<not> is_nan a \<Longrightarrow> \<not> is_nan (fabs a)"
  by (cases a) auto



subsection \<open>Operations whose result needs no rounding\<close>

lemma represents_valof: "is_double d \<Longrightarrow> represents d (valof d)"
  by (cases d) (auto simp: represents_def)

lemma is_double_exact: "is_double d \<Longrightarrow> exact (valof d)"
  by (cases d) (auto simp: exact_def)

lemma mk_exact: "exact v \<Longrightarrow> mk s \<bar>v\<bar> = Num s \<bar>v\<bar>"
  by (simp add: exact_def mk_def)

lemma represents_fadd:
  assumes "represents a u" "represents b v" "exact (u + v)"
  shows "represents (fadd a b) (u + v)"
proof -
  from assms(1) obtain s where a: "a = Num s \<bar>u\<bar>" and s: "u \<noteq> 0 \<longrightarrow> s = (u < 0)"
    by (auto simp: represents_def)
  from assms(2) obtain t where b: "b = Num t \<bar>v\<bar>" and t: "v \<noteq> 0 \<longrightarrow> t = (v < 0)"
    by (auto simp: represents_def)
  have va: "valof a = u" using a s by (cases "u = 0") auto
  have vb: "valof b = v" using b t by (cases "v = 0") auto
  show ?thesis
    using va vb mk_exact [OF assms(3), of "u + v < 0"]
    by (simp add: a b represents_def Let_def)
qed

lemma represents_fneg: "represents a u \<Longrightarrow> represents (fneg a) (- u)"
  by (auto simp: represents_def)

lemma represents_fsub:
  "represents a u \<Longrightarrow> represents b v \<Longrightarrow> exact (u - v) \<Longrightarrow> represents (fsub a b) (u - v)"
  using represents_fadd [of a u "fneg b" "- v"] by (simp add: fsub_def represents_fneg)

lemma represents_fmul:
  assumes "represents a u" "represents b v" "exact (u * v)"
  shows "represents (fmul a b) (u * v)"
proof -
  from assms(1) obtain s where a: "a = Num s \<bar>u\<bar>" and s: "u \<noteq> 0 \<longrightarrow> s = (u < 0)"
    by (auto simp: represents_def)
  from assms(2) obtain t where b: "b = Num t \<bar>v\<bar>" and t: "v \<noteq> 0 \<longrightarrow> t = (v < 0)"
    by (auto simp: represents_def)
  show ?thesis
    using s t mk_exact [OF assms(3), of "s \<noteq> t"]
    by (auto simp: a b represents_def abs_mult mult_less_0_iff)
qed

lemma represents_fdiv:
  assumes "represents a u" "represents b v" "exact (u / v)" "v \<noteq> 0"
  shows "represents (fdiv a b) (u / v)"
proof -
  from assms(1) obtain s where a: "a = Num s \<bar>u\<bar>" and s: "u \<noteq> 0 \<longrightarrow> s = (u < 0)"
    by (auto simp: represents_def)
  from assms(2) obtain t where b: "b = Num t \<bar>v\<bar>" and t: "v \<noteq> 0 \<longrightarrow> t = (v < 0)"
    by (auto simp: represents_def)
  show ?thesis
    using s t assms(4) mk_exact [OF assms(3), of "s \<noteq> t"]
    by (auto simp: a b represents_def divide_less_0_iff)
qed

lemma represents_feq: "represents a v \<Longrightarrow> is_double b \<Longrightarrow> valof b = v \<Longrightarrow> feq a b"
  by (cases b) (auto simp: represents_def split: if_splits)

text \<open>
  When \<open>x1 - x0\<close> and \<open>50 (x1 - x0)\<close> are exact, interpolating from \<open>x0\<close> all the way
  gives \<open>x1\<close> back.
\<close>

lemma last_coordinate_exact:
  assumes "is_double x0" "is_double x1"
    and "exact (valof x1 - valof x0)" "exact (50 * (valof x1 - valof x0))"
  shows "feq (fadd x0 (fdiv (fmul (fsub x1 x0) (lit 50)) (lit 50))) x1"
proof -
  define D where "D = valof x1 - valof x0"
  have r1: "represents (fsub x1 x0) D"
    unfolding D_def using assms by (intro represents_fsub represents_valof)
  have r50: "represents (lit 50) 50"
    by (auto simp: represents_def)
  have r2: "represents (fmul (fsub x1 x0) (lit 50)) (D * 50)"
    using assms(4) by (intro represents_fmul r1 r50) (simp add: D_def mult.commute)
  have e: "D * 50 / 50 = D" by simp
  have x3: "exact (D * 50 / 50)"
    unfolding e using assms(3) by (simp only: D_def)
  have r3: "represents (fdiv (fmul (fsub x1 x0) (lit 50)) (lit 50)) (D * 50 / 50)"
    by (intro represents_fdiv r2 r50 x3) simp
  have v: "valof x0 + D * 50 / 50 = valof x1"
    unfolding e by (simp add: D_def)
  have "exact (valof x0 + D * 50 / 50)"
    unfolding v using assms(2) by (rule is_double_exact)
  then have "represents (fadd x0 (fdiv (fmul (fsub x1 x0) (lit 50)) (lit 50)))
      (valof x0 + D * 50 / 50)"
    using assms(1) by (intro represents_fadd represents_valof r3)
  then show ?thesis
    using assms(2) v by (rule represents_feq [OF _ _ sym])
qed

subsection \<open>Sums of squares\<close>

lemma mk_square_like: "0 \<le> m \<Longrightarrow> square_like (mk False m)"
  using round_mag_granular [of m] round_mag_nonneg [of m]
  by (auto simp: square_like_def mk_def Let_def)

lemma square_like_square: "\<not> is_nan a \<Longrightarrow> square_like (fmul a a)"
  by (cases a) (simp_all add: mk_square_like, simp add: square_like_def)

lemma is_zero_square: "is_zero (fmul a a) = square_underflows a"
proof (cases a)
  case (Num s m)
  have "round_mag (m * m) = 0 \<Longrightarrow> \<not> 2 ^ 1024 \<le> round_mag (m * m)" by simp
  then show ?thesis
    using round_mag_zero_iff [of "m * m"] Num by (auto simp: mk_def Let_def)
qed simp_all

lemma square_like_fadd:
  assumes "square_like a" "square_like b"
  shows "square_like (fadd a b)" and "is_zero (fadd a b) \<longleftrightarrow> is_zero a \<and> is_zero b"
proof -
  consider (num) ra rb where "a = Num False ra" "granular ra" "0 \<le> ra"
      "b = Num False rb" "granular rb" "0 \<le> rb"
    | (inf) "a = Infty False \<or> b = Infty False"
    using assms by (auto simp: square_like_def)
  then have "square_like (fadd a b) \<and> (is_zero (fadd a b) \<longleftrightarrow> is_zero a \<and> is_zero b)"
  proof cases
    case num
    show ?thesis
    proof (cases "ra + rb = 0")
      case True
      then have "ra = 0" "rb = 0" using num(3,6) by simp_all
      then show ?thesis using num by (simp add: square_like_def granular_def)
    next
      case False
      then have pos: "0 < ra + rb" using num(3,6) by simp
      have "2 powi (- 1074) \<le> ra \<or> 2 powi (- 1074) \<le> rb"
        using False num(2,5) by (auto simp: granular_def)
      then have "2 powi (- 1074) \<le> ra + rb"
        using num(3,6) by (auto intro: order_trans)
      then have low: "2 powi (- 1074) \<le> round_mag (ra + rb)" by (rule round_mag_pos)
      have "(0::real) < 2 powi (- 1074)"
        by (simp only: zero_less_power_int zero_less_numeral)
      then have "0 < round_mag (ra + rb)" using low by (rule less_le_trans)
      then have nz: "round_mag (ra + rb) \<noteq> 0" by simp
      have f: "fadd a b = mk False (ra + rb)"
        using pos num(1,4) by (simp add: Let_def)
      have z: "\<not> is_zero (mk False (ra + rb))"
        using nz by (simp add: mk_def Let_def)
      have "\<not> (ra = 0 \<and> rb = 0)" using False by simp
      then show ?thesis
        using mk_square_like [of "ra + rb"] pos z num(1,4) f by simp
    qed
  next
    case inf
    then show ?thesis
      using assms by (auto simp: square_like_def)
  qed
  then show "square_like (fadd a b)" and "is_zero (fadd a b) \<longleftrightarrow> is_zero a \<and> is_zero b"
    by simp_all
qed

lemma is_zero_fsqrt:
  assumes "square_like a"
  shows "is_zero (fsqrt a) \<longleftrightarrow> is_zero a"
proof -
  consider (num) r where "a = Num False r" "granular r" "0 \<le> r" "r < 2 ^ 1024"
    | (inf) "a = Infty False"
    using assms by (auto simp: square_like_def)
  then show ?thesis
  proof cases
    case num
    show ?thesis
    proof (cases "r = 0")
      case True
      then show ?thesis using num by simp
    next
      case False
      then have lo: "2 powi (- 1074) \<le> r" using num(2) by (simp add: granular_def)
      have "r < 2 powi 2048" using num(4) by simp
      then have "0 < sqrt_mag r" using lo by (intro sqrt_mag_pos)
      then show ?thesis using False num(1) by simp
    qed
  next
    case inf
    then show ?thesis by simp
  qed
qed

lemma line_divisor_zero_iff:
  assumes "is_finite (cx s)" "is_finite (cy s)" "is_finite (cx g)" "is_finite (cy g)"
  shows "feq (line_divisor s g) (lit 0)
     \<longleftrightarrow> square_underflows (fsub (cy s) (cy g)) \<and> square_underflows (fsub (cx g) (cx s))"
proof -
  have a: "\<not> is_nan (fsub (cy s) (cy g))" and b: "\<not> is_nan (fsub (cx g) (cx s))"
    using assms by (simp_all add: fsub_finite_not_nan)
  note sa = square_like_square [OF a] and sb = square_like_square [OF b]
  show ?thesis
    using is_zero_fsqrt [OF square_like_fadd(1) [OF sa sb]] square_like_fadd(2) [OF sa sb]
    by (simp add: feq_zero line_divisor_def Let_def is_zero_square del: lit_small)
qed

section \<open>The feasibility check\<close>

text \<open>The check as a chain of three tests on the norms and on the distance \<open>d\<close>.\<close>

lemma feasible_cases:
  "is_given_inputs_feasible pos_init pos_des L =
     (if fgt (norm2d (cx pos_init) (cy pos_init)) (fadd (cx L) (cy L))
            \<or> flt (norm2d (cx pos_init) (cy pos_init)) (fabs (fsub (cx L) (cy L)))
            \<or> fgt (norm2d (cx pos_des) (cy pos_des)) (fadd (cx L) (cy L))
            \<or> flt (norm2d (cx pos_des) (cy pos_des)) (fabs (fsub (cx L) (cy L)))
      then Inl OutOfRange
      else if flt (line_distance pos_init pos_des) (fabs (fsub (cx L) (cy L)))
      then Inl PathInfeasible
      else if feq (cx L) (cy L) \<and> feq (line_distance pos_init pos_des) (lit 0)
      then Inl SingularPath
      else Inr True)"
  unfolding is_given_inputs_feasible_def line_distance_def line_divisor_def Let_def fsub_def
  by (simp add: fadd_commute)

lemma reachable_passes:
  "reachable p L \<Longrightarrow>
     \<not> fgt (norm2d (cx p) (cy p)) (fadd (cx L) (cy L))
     \<and> \<not> flt (norm2d (cx p) (cy p)) (fabs (fsub (cx L) (cy L)))"
  by (simp add: reachable_def fgt_def fle_not_flt)

lemma unreachable_fails:
  assumes "is_finite (cx p)" "is_finite (cy p)" "is_finite (cx L)" "is_finite (cy L)"
    and "\<not> reachable p L"
  shows "fgt (norm2d (cx p) (cy p)) (fadd (cx L) (cy L))
     \<or> flt (norm2d (cx p) (cy p)) (fabs (fsub (cx L) (cy L)))"
proof -
  have n: "\<not> is_nan (norm2d (cx p) (cy p))"
    using assms by (simp add: norm2d_not_nan)
  have s: "\<not> is_nan (fadd (cx L) (cy L))"
    using assms by (simp add: fadd_finite_not_nan)
  have d: "\<not> is_nan (fabs (fsub (cx L) (cy L)))"
    using assms by (simp add: fabs_not_nan fsub_finite_not_nan)
  from assms(5) consider "\<not> fle (fabs (fsub (cx L) (cy L))) (norm2d (cx p) (cy p))"
    | "\<not> fle (norm2d (cx p) (cy p)) (fadd (cx L) (cy L))"
    by (auto simp: reachable_def)
  then show ?thesis
  proof cases
    case 1
    then show ?thesis using not_fle_flt [OF d n] by simp
  next
    case 2
    then show ?thesis using not_fle_flt [OF n s] by (simp add: fgt_def)
  qed
qed

subsection \<open>Positions out of range\<close>

lemma check_5_5:
  "is_finite (lit 5)" "is_finite (lit 3)" "is_finite (lit 0)" "is_finite (lit 1)"
  "\<not> reachable \<lparr>cx = lit 5, cy = lit 5\<rparr> \<lparr>cx = lit 3, cy = lit 1\<rparr>"
  by (simp_all add: reachable_def ev)

text \<open>
  C4. On finite inputs (every number that the program reads is finite), the check
  signals \<open>OutOfRange\<close> exactly when the start or the goal is not reachable, that is,
  violates \<open>|L1 - L2| \<le> norm (x, y) \<le> L1 + L2\<close>.
\<close>

theorem out_of_range_iff:
  assumes "is_finite (cx pos_init)" "is_finite (cy pos_init)"
    and "is_finite (cx pos_des)" "is_finite (cy pos_des)"
    and "is_finite (cx L)" "is_finite (cy L)"
  shows "is_given_inputs_feasible pos_init pos_des L = Inl OutOfRange
     \<longleftrightarrow> \<not> reachable pos_init L \<or> \<not> reachable pos_des L"
proof
  assume "is_given_inputs_feasible pos_init pos_des L = Inl OutOfRange"
  then show "\<not> reachable pos_init L \<or> \<not> reachable pos_des L"
    using reachable_passes [of pos_init L] reachable_passes [of pos_des L]
    by (auto simp: feasible_cases split: if_splits)
next
  assume "\<not> reachable pos_init L \<or> \<not> reachable pos_des L"
  then show "is_given_inputs_feasible pos_init pos_des L = Inl OutOfRange"
    using unreachable_fails [of pos_init L] unreachable_fails [of pos_des L] assms
    by (auto simp: feasible_cases)
qed

theorem out_of_range_iff_witness:
  "is_finite (lit 5) \<and> is_finite (lit 3) \<and> is_finite (lit 0) \<and> is_finite (lit 1)
   \<and> is_given_inputs_feasible \<lparr>cx = lit 5, cy = lit 5\<rparr> \<lparr>cx = lit 3, cy = lit 0\<rparr>
        \<lparr>cx = lit 3, cy = lit 1\<rparr> = Inl OutOfRange"
  using out_of_range_iff [of "\<lparr>cx = lit 5, cy = lit 5\<rparr>" "\<lparr>cx = lit 3, cy = lit 0\<rparr>"
      "\<lparr>cx = lit 3, cy = lit 1\<rparr>"] check_5_5
  by simp

subsection \<open>The line too close to the origin\<close>

text \<open>From \<open>(3, 0)\<close> to \<open>(4, 0)\<close> with links \<open>(3, 1)\<close>: the line goes through the origin.\<close>

lemma check_3_4_on_axis:
  "reachable \<lparr>cx = lit 3, cy = lit 0\<rparr> \<lparr>cx = lit 3, cy = lit 1\<rparr>"
  "reachable \<lparr>cx = lit 4, cy = lit 0\<rparr> \<lparr>cx = lit 3, cy = lit 1\<rparr>"
  "line_distance \<lparr>cx = lit 3, cy = lit 0\<rparr> \<lparr>cx = lit 4, cy = lit 0\<rparr> = Num False 0"
  "fabs (fsub (lit 3) (lit 1)) = Num False 2"
  by (simp_all add: reachable_def line_distance_def line_divisor_def ev)

text \<open>
  C3. When both endpoints are reachable, the check signals \<open>PathInfeasible\<close> exactly
  when the distance \<open>d\<close> of the origin to the line through them is less than \<open>|L1 - L2|\<close>.
\<close>

theorem path_infeasible_iff:
  assumes "reachable pos_init L" and "reachable pos_des L"
  shows "is_given_inputs_feasible pos_init pos_des L = Inl PathInfeasible
     \<longleftrightarrow> flt (line_distance pos_init pos_des) (fabs (fsub (cx L) (cy L)))"
  using reachable_passes [OF assms(1)] reachable_passes [OF assms(2)]
  by (simp add: feasible_cases)

theorem path_infeasible_iff_witness:
  "reachable \<lparr>cx = lit 3, cy = lit 0\<rparr> \<lparr>cx = lit 3, cy = lit 1\<rparr>
   \<and> reachable \<lparr>cx = lit 4, cy = lit 0\<rparr> \<lparr>cx = lit 3, cy = lit 1\<rparr>
   \<and> is_given_inputs_feasible \<lparr>cx = lit 3, cy = lit 0\<rparr> \<lparr>cx = lit 4, cy = lit 0\<rparr>
        \<lparr>cx = lit 3, cy = lit 1\<rparr> = Inl PathInfeasible"
  using path_infeasible_iff [OF check_3_4_on_axis(1) check_3_4_on_axis(2)] check_3_4_on_axis
  by simp

subsection \<open>The singular path\<close>

lemma check_chord_through_origin:
  "reachable \<lparr>cx = lit 2, cy = lit 0\<rparr> \<lparr>cx = lit 2, cy = lit 2\<rparr>"
  "reachable \<lparr>cx = lit (- 2), cy = lit 0\<rparr> \<lparr>cx = lit 2, cy = lit 2\<rparr>"
  "line_distance \<lparr>cx = lit 2, cy = lit 0\<rparr> \<lparr>cx = lit (- 2), cy = lit 0\<rparr> = Num False 0"
  "fabs (fsub (lit 2) (lit 2)) = Num False 0"
  "lit 0 = Num False 0"
  "feq (lit 2) (lit 2)"
  by (simp_all add: reachable_def line_distance_def line_divisor_def ev)

text \<open>
  C5. When both endpoints are reachable and \<open>d \<ge> |L1 - L2|\<close>, the check signals
  \<open>SingularPath\<close> exactly when \<open>L1 == L2\<close> and \<open>d == 0\<close>, both by the equality of
  doubles. It rejects \<open>L1 = 2\<close>, \<open>L2 = 2\<close>, start \<open>(2, 0)\<close>, goal \<open>(-2, 0)\<close> with
  \<open>SingularPath\<close>.
\<close>

theorem singular_path_iff:
  "(reachable pos_init L \<and> reachable pos_des L
      \<and> fle (fabs (fsub (cx L) (cy L))) (line_distance pos_init pos_des)
    \<longrightarrow> (is_given_inputs_feasible pos_init pos_des L = Inl SingularPath
          \<longleftrightarrow> feq (cx L) (cy L) \<and> feq (line_distance pos_init pos_des) (lit 0)))
   \<and> is_given_inputs_feasible \<lparr>cx = lit 2, cy = lit 0\<rparr> \<lparr>cx = lit (- 2), cy = lit 0\<rparr>
        \<lparr>cx = lit 2, cy = lit 2\<rparr> = Inl SingularPath"
proof (intro conjI impI)
  assume h: "reachable pos_init L \<and> reachable pos_des L
      \<and> fle (fabs (fsub (cx L) (cy L))) (line_distance pos_init pos_des)"
  show "is_given_inputs_feasible pos_init pos_des L = Inl SingularPath
          \<longleftrightarrow> feq (cx L) (cy L) \<and> feq (line_distance pos_init pos_des) (lit 0)"
    using h reachable_passes [of pos_init L] reachable_passes [of pos_des L]
      fle_not_flt [of "fabs (fsub (cx L) (cy L))" "line_distance pos_init pos_des"]
    by (simp add: feasible_cases)
next
  show "is_given_inputs_feasible \<lparr>cx = lit 2, cy = lit 0\<rparr> \<lparr>cx = lit (- 2), cy = lit 0\<rparr>
        \<lparr>cx = lit 2, cy = lit 2\<rparr> = Inl SingularPath"
    using check_chord_through_origin
      reachable_passes [OF check_chord_through_origin(1)]
      reachable_passes [OF check_chord_through_origin(2)]
    by (simp add: feasible_cases)
qed

theorem singular_path_iff_witness:
  "reachable \<lparr>cx = lit 2, cy = lit 0\<rparr> \<lparr>cx = lit 2, cy = lit 2\<rparr>
   \<and> reachable \<lparr>cx = lit (- 2), cy = lit 0\<rparr> \<lparr>cx = lit 2, cy = lit 2\<rparr>
   \<and> fle (fabs (fsub (lit 2) (lit 2)))
        (line_distance \<lparr>cx = lit 2, cy = lit 0\<rparr> \<lparr>cx = lit (- 2), cy = lit 0\<rparr>)
   \<and> feq (lit 2) (lit 2)
   \<and> feq (line_distance \<lparr>cx = lit 2, cy = lit 0\<rparr> \<lparr>cx = lit (- 2), cy = lit 0\<rparr>) (lit 0)
   \<and> is_given_inputs_feasible \<lparr>cx = lit 2, cy = lit 0\<rparr> \<lparr>cx = lit (- 2), cy = lit 0\<rparr>
        \<lparr>cx = lit 2, cy = lit 2\<rparr> = Inl SingularPath"
  using singular_path_iff [of "\<lparr>cx = lit 2, cy = lit 0\<rparr>" "\<lparr>cx = lit 2, cy = lit 2\<rparr>"
      "\<lparr>cx = lit (- 2), cy = lit 0\<rparr>"] check_chord_through_origin
  by (simp add: fle_def)

subsection \<open>Identical endpoints\<close>

lemma fsub_equal_values:
  assumes "is_finite a" "is_finite b" "feq a b"
  shows "\<exists>s. fsub a b = Num s 0"
  using assms by (cases a; cases b) (auto simp: fsub_def Let_def)

lemma fmul_zero_left: "is_finite b \<Longrightarrow> \<exists>s. fmul (Num t 0) b = Num s 0"
  by (cases b) (auto simp: mk_def round_mag_def)

lemma fmul_zero_right: "is_finite a \<Longrightarrow> \<exists>s. fmul a (Num t 0) = Num s 0"
  by (cases a) (auto simp: mk_def round_mag_def)

lemma line_of_identical_endpoints:
  assumes "is_finite (cx s)" "is_finite (cy s)" "is_finite (cx g)" "is_finite (cy g)"
    and "feq (cx s) (cx g)" "feq (cy s) (cy g)"
  shows "line_divisor s g = Num False 0" and "line_distance s g = NaN"
proof -
  have sym: "feq (cx g) (cx s)" using assms(1,3,5) by (cases "cx s"; cases "cx g") auto
  obtain sa where a: "fsub (cy s) (cy g) = Num sa 0"
    using fsub_equal_values [OF assms(2,4,6)] by blast
  obtain sb where b: "fsub (cx g) (cx s) = Num sb 0"
    using fsub_equal_values [OF assms(3,1) sym] by blast
  obtain sb' where b': "fsub (cx s) (cx g) = Num sb' 0"
    using fsub_equal_values [OF assms(1,3,5)] by blast
  show d: "line_divisor s g = Num False 0"
    by (simp add: line_divisor_def a b mk_def round_mag_def)
  obtain s1 where c1: "fmul (cy s) (Num sb' 0) = Num s1 0"
    using fmul_zero_right [OF assms(2)] by blast
  obtain s2 where c2: "fmul (Num sa 0) (cx s) = Num s2 0"
    using fmul_zero_left [OF assms(1)] by blast
  have "line_distance s g = fdiv (fabs (fsub (Num s1 0) (Num s2 0))) (Num False 0)"
    by (simp add: line_distance_def Let_def d a b' c1 c2)
  then show "line_distance s g = NaN"
    by (simp add: fsub_def)
qed

text \<open>
  C9, as amended. On finite inputs the divisor \<open>sqrt(a\<^sup>2 + b\<^sup>2)\<close> is zero exactly when
  the squares of both differences \<open>a\<close> and \<open>b\<close> underflow to zero. This is so whenever
  start and goal are the same position; the distance \<open>d\<close> is then \<open>0/0\<close>, a NaN, every
  comparison with \<open>d\<close> is false, and if the position is reachable the check signals no
  error.
\<close>

theorem identical_endpoints_accepted:
  assumes "is_finite (cx s)" "is_finite (cy s)" "is_finite (cx g)" "is_finite (cy g)"
  shows "(feq (line_divisor s g) (lit 0)
       \<longleftrightarrow> square_underflows (fsub (cy s) (cy g)) \<and> square_underflows (fsub (cx g) (cx s)))
     \<and> (feq (cx s) (cx g) \<and> feq (cy s) (cy g)
       \<longrightarrow> feq (line_divisor s g) (lit 0)
           \<and> is_nan (line_distance s g)
           \<and> (\<forall>z. \<not> flt (line_distance s g) z \<and> \<not> flt z (line_distance s g)
                  \<and> \<not> feq (line_distance s g) z)
           \<and> (reachable s L \<and> reachable g L
                \<longrightarrow> is_given_inputs_feasible s g L = Inr True))"
proof (intro conjI impI)
  show "feq (line_divisor s g) (lit 0)
       \<longleftrightarrow> square_underflows (fsub (cy s) (cy g)) \<and> square_underflows (fsub (cx g) (cx s))"
    using assms by (rule line_divisor_zero_iff)
next
  assume e: "feq (cx s) (cx g) \<and> feq (cy s) (cy g)"
  note l = line_of_identical_endpoints [OF assms conjunct1 [OF e] conjunct2 [OF e]]
  show "feq (line_divisor s g) (lit 0)" "is_nan (line_distance s g)"
    "\<forall>z. \<not> flt (line_distance s g) z \<and> \<not> flt z (line_distance s g)
                  \<and> \<not> feq (line_distance s g) z"
    using l by simp_all
  show "is_given_inputs_feasible s g L = Inr True" if "reachable s L \<and> reachable g L"
    using that l reachable_passes [of s L] reachable_passes [of g L]
    by (simp add: feasible_cases)
qed

theorem identical_endpoints_accepted_witness:
  "is_finite (lit 3) \<and> is_finite (lit 0) \<and> feq (lit 3) (lit 3) \<and> feq (lit 0) (lit 0)
   \<and> reachable \<lparr>cx = lit 3, cy = lit 0\<rparr> \<lparr>cx = lit 3, cy = lit 1\<rparr>
   \<and> is_given_inputs_feasible \<lparr>cx = lit 3, cy = lit 0\<rparr> \<lparr>cx = lit 3, cy = lit 0\<rparr>
        \<lparr>cx = lit 3, cy = lit 1\<rparr> = Inr True"
proof -
  have f: "is_finite (lit 3)" "is_finite (lit 0)" "feq (lit 3) (lit 3)" "feq (lit 0) (lit 0)"
    by (simp_all add: ev)
  show ?thesis
    using identical_endpoints_accepted [of "\<lparr>cx = lit 3, cy = lit 0\<rparr>"
        "\<lparr>cx = lit 3, cy = lit 0\<rparr>" "\<lparr>cx = lit 3, cy = lit 1\<rparr>"] f check_3_4_on_axis(1)
    by simp
qed

text \<open>
  From \<open>(1e-200, 0)\<close> to \<open>(2e-200, 0)\<close>: the difference \<open>b\<close> is \<open>1e-200\<close>, and its
  square, \<open>1e-400\<close>, is below every positive double.
\<close>

lemma tiny_step_trace:
  "fsub (lit 0) (lit 0) = lit 0"
  "fsub (lit (2 / 10 ^ 200)) (lit (1 / 10 ^ 200)) = lit (1 / 10 ^ 200)"
  "fmul (lit (1 / 10 ^ 200)) (lit (1 / 10 ^ 200)) = lit 0"
  "fsqrt (fadd (lit 0) (lit 0)) = lit 0"
  by (simp_all add: ev)

lemma tiny_step:
  "is_finite (lit (1 / 10 ^ 200))" "is_finite (lit (2 / 10 ^ 200))" "is_finite (lit 0)"
  "\<not> feq (lit (1 / 10 ^ 200)) (lit (2 / 10 ^ 200))"
  "feq (line_divisor \<lparr>cx = lit (1 / 10 ^ 200), cy = lit 0\<rparr>
          \<lparr>cx = lit (2 / 10 ^ 200), cy = lit 0\<rparr>) (lit 0)"
  "reachable \<lparr>cx = lit (1 / 10 ^ 200), cy = lit 0\<rparr> \<lparr>cx = lit 1, cy = lit 1\<rparr>"
  "reachable \<lparr>cx = lit (2 / 10 ^ 200), cy = lit 0\<rparr> \<lparr>cx = lit 1, cy = lit 1\<rparr>"
  by (simp_all add: reachable_def line_divisor_def ev)

text \<open>
  The claim as stated fails: the divisor is zero for the distinct positions
  \<open>(1e-200, 0)\<close> and \<open>(2e-200, 0)\<close>, both reachable with links \<open>(1, 1)\<close>, because the
  square of their difference underflows to zero.
\<close>

theorem zero_divisor_for_distinct_endpoints:
  "is_finite (lit (1 / 10 ^ 200)) \<and> is_finite (lit (2 / 10 ^ 200)) \<and> is_finite (lit 0)
   \<and> reachable \<lparr>cx = lit (1 / 10 ^ 200), cy = lit 0\<rparr> \<lparr>cx = lit 1, cy = lit 1\<rparr>
   \<and> reachable \<lparr>cx = lit (2 / 10 ^ 200), cy = lit 0\<rparr> \<lparr>cx = lit 1, cy = lit 1\<rparr>
   \<and> feq (line_divisor \<lparr>cx = lit (1 / 10 ^ 200), cy = lit 0\<rparr>
             \<lparr>cx = lit (2 / 10 ^ 200), cy = lit 0\<rparr>) (lit 0)
   \<and> \<not> feq (cx \<lparr>cx = lit (1 / 10 ^ 200), cy = lit 0\<rparr>)
            (cx \<lparr>cx = lit (2 / 10 ^ 200), cy = lit 0\<rparr>)"
  using tiny_step by simp

subsection \<open>The line and the segment\<close>

lemma segment_beside_disk:
  "reachable \<lparr>cx = lit 3, cy = lit 0.1\<rparr> \<lparr>cx = lit 3, cy = lit 1\<rparr>"
  "reachable \<lparr>cx = lit 3.9, cy = lit 0.1\<rparr> \<lparr>cx = lit 3, cy = lit 1\<rparr>"
  "\<not> reachable \<lparr>cx = lit 4, cy = lit 0.1\<rparr> \<lparr>cx = lit 3, cy = lit 1\<rparr>"
  "is_finite (lit 3)" "is_finite (lit 0.1)" "is_finite (lit 4)" "is_finite (lit 1)"
  "is_given_inputs_feasible \<lparr>cx = lit 3, cy = lit 0.1\<rparr> \<lparr>cx = lit 3.9, cy = lit 0.1\<rparr>
     \<lparr>cx = lit 3, cy = lit 1\<rparr> = Inl PathInfeasible"
  "valof (fabs (fsub (lit 3) (lit 1))) = 2"
  "valof (lit 3) = 3" "3 \<le> valof (lit 3.9)"
  by (simp_all add: reachable_def is_given_inputs_feasible_def ev)

text \<open>
  C10, as amended. The distance \<open>d\<close> is that of the origin to the whole line, not to the
  segment: with \<open>L1 = 3\<close>, \<open>L2 = 1\<close>, start \<open>(3, 0.1)\<close> and goal \<open>(3.9, 0.1)\<close> both
  endpoints are reachable and every point of the segment between them has a norm of at
  least \<open>|L1 - L2|\<close>, yet the check signals \<open>PathInfeasible\<close>.
\<close>

theorem line_not_segment_example:
  "reachable \<lparr>cx = lit 3, cy = lit 0.1\<rparr> \<lparr>cx = lit 3, cy = lit 1\<rparr>
   \<and> reachable \<lparr>cx = lit 3.9, cy = lit 0.1\<rparr> \<lparr>cx = lit 3, cy = lit 1\<rparr>
   \<and> (\<forall>t\<in>{0..1}. valof (fabs (fsub (lit 3) (lit 1)))
          \<le> sqrt ((valof (lit 3) + t * (valof (lit 3.9) - valof (lit 3)))\<^sup>2
                + (valof (lit 0.1) + t * (valof (lit 0.1) - valof (lit 0.1)))\<^sup>2))
   \<and> is_given_inputs_feasible \<lparr>cx = lit 3, cy = lit 0.1\<rparr> \<lparr>cx = lit 3.9, cy = lit 0.1\<rparr>
        \<lparr>cx = lit 3, cy = lit 1\<rparr> = Inl PathInfeasible"
proof (intro conjI ballI)
  fix t :: real
  assume t: "t \<in> {0..1}"
  define X where "X = valof (lit 3) + t * (valof (lit 3.9) - valof (lit 3))"
  define Y where "Y = valof (lit 0.1) + t * (valof (lit 0.1) - valof (lit 0.1))"
  have "0 \<le> t * (valof (lit 3.9) - 3)"
    using t segment_beside_disk(11) by simp
  then have "3 \<le> X"
    by (simp add: X_def segment_beside_disk(10))
  also have "X \<le> sqrt (X\<^sup>2 + Y\<^sup>2)"
    by (rule real_sqrt_sum_squares_ge1)
  finally have "3 \<le> sqrt (X\<^sup>2 + Y\<^sup>2)" .
  then show "valof (fabs (fsub (lit 3) (lit 1)))
      \<le> sqrt ((valof (lit 3) + t * (valof (lit 3.9) - valof (lit 3)))\<^sup>2
            + (valof (lit 0.1) + t * (valof (lit 0.1) - valof (lit 0.1)))\<^sup>2)"
    unfolding X_def Y_def using segment_beside_disk(9) by simp
qed (rule segment_beside_disk)+

theorem line_not_segment_example_witness:
  "(1 / 2 :: real) \<in> {0..1}
   \<and> valof (fabs (fsub (lit 3) (lit 1)))
       \<le> sqrt ((valof (lit 3) + 1 / 2 * (valof (lit 3.9) - valof (lit 3)))\<^sup>2
            + (valof (lit 0.1) + 1 / 2 * (valof (lit 0.1) - valof (lit 0.1)))\<^sup>2)"
proof -
  have h: "(1 / 2 :: real) \<in> {0..1}" by simp
  from line_not_segment_example have "\<forall>t\<in>{0..1}. valof (fabs (fsub (lit 3) (lit 1)))
          \<le> sqrt ((valof (lit 3) + t * (valof (lit 3.9) - valof (lit 3)))\<^sup>2
                + (valof (lit 0.1) + t * (valof (lit 0.1) - valof (lit 0.1)))\<^sup>2)"
    by blast
  from bspec [OF this h] h show ?thesis by blast
qed

text \<open>
  The norm of \<open>(4, 0.1)\<close> against \<open>L1 + L2\<close> for the links \<open>(3, 1)\<close>.
\<close>

lemma claimed_example_trace:
  "fmul (lit 0.1) (lit 0.1) = lit 0.010000000000000002"
  "fadd (fmul (lit 4) (lit 4)) (lit 0.010000000000000002) = lit 16.01"
  "fsqrt (lit 16.01) = lit 4.001249804748512"
  "fadd (lit 3) (lit 1) = lit 4"
  "fgt (lit 4.001249804748512) (lit 4)"
  by (simp_all add: ev)

text \<open>
  The example of the claim as stated fails: the goal \<open>(4, 0.1)\<close> has a norm above
  \<open>L1 + L2 = 4\<close>, so it is not reachable and the check signals \<open>OutOfRange\<close>.
\<close>

theorem claimed_example_out_of_range:
  "\<not> reachable \<lparr>cx = lit 4, cy = lit 0.1\<rparr> \<lparr>cx = lit 3, cy = lit 1\<rparr>
   \<and> is_given_inputs_feasible \<lparr>cx = lit 3, cy = lit 0.1\<rparr> \<lparr>cx = lit 4, cy = lit 0.1\<rparr>
        \<lparr>cx = lit 3, cy = lit 1\<rparr> \<noteq> Inl PathInfeasible
   \<and> is_given_inputs_feasible \<lparr>cx = lit 3, cy = lit 0.1\<rparr> \<lparr>cx = lit 4, cy = lit 0.1\<rparr>
        \<lparr>cx = lit 3, cy = lit 1\<rparr> = Inl OutOfRange"
  using unreachable_fails [of "\<lparr>cx = lit 4, cy = lit 0.1\<rparr>" "\<lparr>cx = lit 3, cy = lit 1\<rparr>"]
    segment_beside_disk
  by (auto simp: feasible_cases)

section \<open>The run\<close>

subsection \<open>A run that fails\<close>

text \<open>
  C8. When the check signals an error, the run ends with exit status 0, having written
  after the prompts only the message of that error, which tells the three errors apart;
  no row of the table and no header is written.
\<close>

theorem infeasible_run_terminates:
  assumes "is_given_inputs_feasible pos_init pos_des L = Inl e"
  shows "main pos_init pos_des L = Some (prompts @ [Text (message e)], 0)
     \<and> entries (prompts @ [Text (message e)]) = []
     \<and> (\<forall>e'. message e' = message e \<longrightarrow> e' = e)"
proof (intro conjI allI impI)
  show "main pos_init pos_des L = Some (prompts @ [Text (message e)], 0)"
    using assms by (simp add: main_def)
  show "entries (prompts @ [Text (message e)]) = []"
    by (simp add: prompts_def)
  show "e' = e" if "message e' = message e" for e'
    using that by (cases e; cases e') simp_all
qed

theorem infeasible_run_terminates_witness:
  "is_given_inputs_feasible \<lparr>cx = lit 5, cy = lit 5\<rparr> \<lparr>cx = lit 3, cy = lit 0\<rparr>
        \<lparr>cx = lit 3, cy = lit 1\<rparr> = Inl OutOfRange
   \<and> main \<lparr>cx = lit 5, cy = lit 5\<rparr> \<lparr>cx = lit 3, cy = lit 0\<rparr> \<lparr>cx = lit 3, cy = lit 1\<rparr>
       = Some (prompts
           @ [Text ''Position(s) is(are) not in the operable range. Terminating ...''], 0)"
proof -
  have h: "is_given_inputs_feasible \<lparr>cx = lit 5, cy = lit 5\<rparr> \<lparr>cx = lit 3, cy = lit 0\<rparr>
        \<lparr>cx = lit 3, cy = lit 1\<rparr> = Inl OutOfRange"
    using unreachable_fails [of "\<lparr>cx = lit 5, cy = lit 5\<rparr>" "\<lparr>cx = lit 3, cy = lit 1\<rparr>"]
      check_5_5
    by (auto simp: feasible_cases)
  show ?thesis
    using infeasible_run_terminates [OF h] h by simp
qed

subsection \<open>The sampled trajectory\<close>

text \<open>The loop runs its 50 rounds, the counter taking the values \<open>0, \<dots>, 49\<close>, and ends.\<close>

lemma loop_from:
  "k \<le> 50 \<Longrightarrow> loop (Num False (real k)) pos_init pos_des L
     = Some (map (\<lambda>j. row (Num False (real j)) pos_init pos_des L) [k..<50])"
proof (induction "50 - k" arbitrary: k)
  case 0
  then have "k = 50" by simp
  then show ?case by (subst loop.simps) (simp add: N_def)
next
  case (Suc n)
  then have k: "k < 50" and n: "n = 50 - Suc k" and le: "Suc k \<le> 50" by simp_all
  have c: "flt (Num False (real k)) N" using k by (simp add: N_def)
  have "loop (Num False (real k)) pos_init pos_des L
      = Option.bind (loop (fadd (Num False (real k)) (lit 1)) pos_init pos_des L)
          (\<lambda>rest. Some (row (Num False (real k)) pos_init pos_des L # rest))"
    by (subst loop.simps) (simp only: c if_True)
  also have "\<dots> = Some (row (Num False (real k)) pos_init pos_des L
      # map (\<lambda>j. row (Num False (real j)) pos_init pos_des L) [Suc k..<50])"
    by (simp only: counter_step [OF k] Suc.hyps(1) [OF n le] Option.bind.simps)
  also have "\<dots> = Some (map (\<lambda>j. row (Num False (real j)) pos_init pos_des L) [k..<50])"
    using k by (simp add: upt_conv_Cons del: of_nat_Suc)
  finally show ?case .
qed

lemma entries_texts: "entries (prompts @ header) = []"
  by (simp add: prompts_def header_def)

lemma entries_append: "entries (xs @ ys) = entries xs @ entries ys"
  by (induction xs rule: entries.induct) simp_all

lemma pos_des_local_waypoint:
  "k < 50 \<Longrightarrow>
     pos_des_local (Num False (real k)) pos_init pos_des = waypoint (Suc k) pos_init pos_des"
  using counter_step [of k] lit_of_nat [of "Suc k"]
  by (simp add: pos_des_local_def waypoint_def N_def del: of_nat_Suc)

lemma main_feasible:
  assumes "is_given_inputs_feasible pos_init pos_des L = Inr True"
  shows "main pos_init pos_des L
     = Some (prompts @ header
         @ [Row (cx (from_pos_to_angle pos_init L)) (cy (from_pos_to_angle pos_init L))
              (cx pos_init) (cy pos_init) '' (initial)'']
         @ map (\<lambda>j. row (Num False (real j)) pos_init pos_des L) [0..<50], 0)"
  using assms loop_from [of 0 pos_init pos_des L]
  by (simp add: main_def Let_def)

lemma entries_rows:
  "entries (map (\<lambda>j. row (Num False (real j)) pos_init pos_des L) [k..<50])
     = map (\<lambda>i. (waypoint i pos_init pos_des, from_pos_to_angle (waypoint i pos_init pos_des) L))
         [Suc k..<51]"
proof (induction "50 - k" arbitrary: k)
  case 0
  then show ?case by simp
next
  case (Suc n)
  then have k: "k < 50" and n: "n = 50 - Suc k" by simp_all
  have "[k..<50] = k # [Suc k..<50]" "[Suc k..<51] = Suc k # [Suc (Suc k)..<51]"
    using k by (simp_all add: upt_conv_Cons)
  then show ?case
    using Suc.hyps(1) [OF n] pos_des_local_waypoint [OF k, of pos_init pos_des]
    by (simp add: row_def Let_def)
qed

lemma main_entries:
  assumes "is_given_inputs_feasible start goal L = Inr True"
  shows "main start goal L \<noteq> None"
    and "snd (the (main start goal L)) = 0"
    and "entries (fst (the (main start goal L)))
     = (start, from_pos_to_angle start L)
       # map (\<lambda>i. (waypoint i start goal, from_pos_to_angle (waypoint i start goal) L)) [1..<51]"
  using main_feasible [OF assms] entries_rows [of start goal L 0]
  by (simp_all add: entries_append entries_texts [simplified entries_append])

lemma path_3_0_to_0_3:
  "is_given_inputs_feasible \<lparr>cx = lit 3, cy = lit 0\<rparr> \<lparr>cx = lit 0, cy = lit 3\<rparr>
     \<lparr>cx = lit 2, cy = lit 2\<rparr> = Inr True"
  "is_double (lit 3)" "is_double (lit 0)"
  "exact (0 - 3)" "exact (50 * (0 - 3))" "exact (3 - 0)" "exact (50 * (3 - 0))"
  "valof (lit 3) = 3" "valof (lit 0) = 0"
  by (simp_all add: is_given_inputs_feasible_def ev exact_def)

text \<open>
  C2, as amended. On feasible inputs the run ends with status 0 and reports exactly 51
  entries: first the start with its angles, then for \<open>i = 1, \<dots>, 50\<close> the waypoint
  \<open>start + ((goal - start) \<cdot> i) / 50\<close>, each operation rounded, with the angles solved
  at it. A coordinate of the last entry equals that of the goal whenever
  \<open>goal - start\<close> and \<open>50 (goal - start)\<close> are exact in that coordinate.
\<close>

theorem main_reports_trajectory:
  assumes "is_given_inputs_feasible start goal L = Inr True"
  shows "\<exists>out. main start goal L = Some (out, 0)
     \<and> length (entries out) = 51
     \<and> entries out ! 0 = (start, from_pos_to_angle start L)
     \<and> (\<forall>i\<in>{1..50}. entries out ! i
           = (waypoint i start goal, from_pos_to_angle (waypoint i start goal) L))
     \<and> (is_double (cx start) \<and> is_double (cx goal)
          \<and> exact (valof (cx goal) - valof (cx start))
          \<and> exact (50 * (valof (cx goal) - valof (cx start)))
        \<longrightarrow> feq (cx (fst (entries out ! 50))) (cx goal))
     \<and> (is_double (cy start) \<and> is_double (cy goal)
          \<and> exact (valof (cy goal) - valof (cy start))
          \<and> exact (50 * (valof (cy goal) - valof (cy start)))
        \<longrightarrow> feq (cy (fst (entries out ! 50))) (cy goal))"
proof -
  define es where "es = (start, from_pos_to_angle start L)
       # map (\<lambda>i. (waypoint i start goal, from_pos_to_angle (waypoint i start goal) L)) [1..<51]"
  obtain out c where m: "main start goal L = Some (out, c)"
    using main_entries(1) [OF assms] by auto
  have c: "c = 0" using main_entries(2) [OF assms] m by simp
  have e: "entries out = es" using main_entries(3) [OF assms] m by (simp add: es_def)
  have len: "length es = 51" by (simp add: es_def)
  have hd: "es ! 0 = (start, from_pos_to_angle start L)" by (simp add: es_def)
  have nth: "es ! i = (waypoint i start goal, from_pos_to_angle (waypoint i start goal) L)"
    if "i \<in> {1..50}" for i
  proof -
    from that obtain j where j: "i = Suc j" "j < 50" by (cases i) auto
    then show ?thesis by (simp add: es_def)
  qed
  have lastx: "feq (cx (fst (es ! 50))) (cx goal)"
    if "is_double (cx start) \<and> is_double (cx goal)
          \<and> exact (valof (cx goal) - valof (cx start))
          \<and> exact (50 * (valof (cx goal) - valof (cx start)))"
    using that last_coordinate_exact [of "cx start" "cx goal"] nth [of 50]
    by (simp add: waypoint_def)
  have lasty: "feq (cy (fst (es ! 50))) (cy goal)"
    if "is_double (cy start) \<and> is_double (cy goal)
          \<and> exact (valof (cy goal) - valof (cy start))
          \<and> exact (50 * (valof (cy goal) - valof (cy start)))"
    using that last_coordinate_exact [of "cy start" "cy goal"] nth [of 50]
    by (simp add: waypoint_def)
  show ?thesis
    using m c e len hd nth lastx lasty by (intro exI [of _ out]) blast
qed

theorem main_reports_trajectory_witness:
  "is_given_inputs_feasible \<lparr>cx = lit 3, cy = lit 0\<rparr> \<lparr>cx = lit 0, cy = lit 3\<rparr>
     \<lparr>cx = lit 2, cy = lit 2\<rparr> = Inr True
   \<and> (\<exists>out. main \<lparr>cx = lit 3, cy = lit 0\<rparr> \<lparr>cx = lit 0, cy = lit 3\<rparr>
              \<lparr>cx = lit 2, cy = lit 2\<rparr> = Some (out, 0)
        \<and> length (entries out) = 51
        \<and> fst (entries out ! 0) = \<lparr>cx = lit 3, cy = lit 0\<rparr>
        \<and> feq (cx (fst (entries out ! 50))) (lit 0)
        \<and> feq (cy (fst (entries out ! 50))) (lit 3))"
proof -
  from main_reports_trajectory [OF path_3_0_to_0_3(1)] obtain out where
    "main \<lparr>cx = lit 3, cy = lit 0\<rparr> \<lparr>cx = lit 0, cy = lit 3\<rparr> \<lparr>cx = lit 2, cy = lit 2\<rparr>
       = Some (out, 0)"
    "length (entries out) = 51"
    "fst (entries out ! 0) = \<lparr>cx = lit 3, cy = lit 0\<rparr>"
    "feq (cx (fst (entries out ! 50))) (lit 0)"
    "feq (cy (fst (entries out ! 50))) (lit 3)"
    using path_3_0_to_0_3 by auto
  then show ?thesis
    using path_3_0_to_0_3(1) by blast
qed

text \<open>
  From \<open>x = 1\<close> to \<open>x = 0.1\<close>: the doubles that the last round of the loop goes through.
  The difference \<open>0.1 - 1\<close> is rounded to the double \<open>- 0.9\<close>, which is a little more
  in magnitude than the exact difference, and adding it to \<open>1\<close> does not give the double
  \<open>0.1\<close> back.
\<close>

lemma path_1_to_01_trace:
  "fsub (lit 0.1) (lit 1) = lit (- 0.9)"
  "fmul (lit (- 0.9)) (lit 50) = lit (- 45)"
  "fdiv (lit (- 45)) (lit 50) = lit (- 0.9)"
  "fadd (lit 1) (lit (- 0.9)) = lit 0.09999999999999998"
  "\<not> feq (lit 0.09999999999999998) (lit 0.1)"
  by (simp_all add: ev)

lemma path_1_to_01:
  "is_given_inputs_feasible \<lparr>cx = lit 1, cy = lit 0.5\<rparr> \<lparr>cx = lit 0.1, cy = lit 0.5\<rparr>
     \<lparr>cx = lit 1, cy = lit 1\<rparr> = Inr True"
  "\<not> feq (fadd (lit 1) (fdiv (fmul (fsub (lit 0.1) (lit 1)) (lit 50)) (lit 50))) (lit 0.1)"
  by (simp_all add: is_given_inputs_feasible_def ev)

text \<open>
  The claim as stated fails: from \<open>(1, 0.5)\<close> to \<open>(0.1, 0.5)\<close> with links \<open>(1, 1)\<close> the
  inputs are feasible, and the last reported position has \<open>x = 1 + ((0.1 - 1) \<cdot> 50) / 50\<close>,
  which is not the double \<open>0.1\<close>.
\<close>

theorem last_waypoint_not_goal:
  "is_given_inputs_feasible \<lparr>cx = lit 1, cy = lit 0.5\<rparr> \<lparr>cx = lit 0.1, cy = lit 0.5\<rparr>
     \<lparr>cx = lit 1, cy = lit 1\<rparr> = Inr True
   \<and> \<not> feq (cx (fst (last (entries (fst (the
          (main \<lparr>cx = lit 1, cy = lit 0.5\<rparr> \<lparr>cx = lit 0.1, cy = lit 0.5\<rparr>
             \<lparr>cx = lit 1, cy = lit 1\<rparr>)))))))
        (cx \<lparr>cx = lit 0.1, cy = lit 0.5\<rparr>)"
proof -
  have "[1..<51] = [1..<50] @ [50::nat]"
    by (simp add: upt_rec [of 50 51] flip: upt_add_eq_append [of 1 50 1, simplified])
  then show ?thesis
    using main_entries(3) [OF path_1_to_01(1)] path_1_to_01
    by (simp add: waypoint_def)
qed

section \<open>The inverse kinematics\<close>

text \<open>
  \<open>from_pos_to_angle\<close> evaluates the two formulas of the specification in doubles. What
  it returns is compared here with the value of the formulas over the real numbers:
  where the argument of the arc cosine, as computed, lies in \<open>[-1, 1]\<close>, every library
  call returns the real function's value on its double argument up to one unit in the
  last place, and both angles are finite; where the computed argument exceeds one, at a
  position on the outer circle, both angles are NaN.
\<close>

subsection \<open>Bounds on \<open>\<pi>\<close>\<close>

text \<open>
  The partial sums of the series of the arc tangent enclose it; with Machin's formula
  they give \<open>\<pi>\<close> to better than the spacing of the doubles around it.
\<close>

lemma arctan_partial_sums:
  fixes x :: real
  assumes "0 \<le> x" "x \<le> 1"
  shows "(\<Sum>k<2 * n. (- 1) ^ k * (1 / real (k * 2 + 1) * x ^ (k * 2 + 1))) \<le> arctan x"
    and "arctan x \<le> (\<Sum>k<2 * n + 1. (- 1) ^ k * (1 / real (k * 2 + 1) * x ^ (k * 2 + 1)))"
proof -
  define a where "a k = 1 / real (k * 2 + 1) * x ^ (k * 2 + 1)" for k
  have ax: "\<bar>x\<bar> \<le> 1" using assms by simp
  have z: "a \<longlonglongrightarrow> 0"
    unfolding a_def using zeroseq_arctan_series [OF ax] .
  have p: "0 \<le> a k" for k
    unfolding a_def using assms by simp
  have m: "a (Suc k) \<le> a k" for k
  proof -
    have "x ^ (Suc k * 2 + 1) \<le> x ^ (k * 2 + 1)"
      using assms by (intro power_decreasing) simp_all
    moreover have "1 / real (Suc k * 2 + 1) \<le> 1 / real (k * 2 + 1)"
      by (simp add: field_simps)
    ultimately show ?thesis
      unfolding a_def using assms by (intro mult_mono) simp_all
  qed
  have s: "arctan x = (\<Sum>k. (- 1) ^ k * a k)"
    unfolding a_def using arctan_series [OF ax] .
  show "(\<Sum>k<2 * n. (- 1) ^ k * (1 / real (k * 2 + 1) * x ^ (k * 2 + 1))) \<le> arctan x"
    using summable_Leibniz'(2) [of a, OF z p m, of n] unfolding s a_def .
  show "arctan x \<le> (\<Sum>k<2 * n + 1. (- 1) ^ k * (1 / real (k * 2 + 1) * x ^ (k * 2 + 1)))"
    using summable_Leibniz'(4) [of a, OF z p m, of n] unfolding s a_def .
qed

lemma pi_machin: "pi = 16 * arctan (1 / 5) - 4 * arctan (1 / 239)"
  using machin by simp

lemma pi_between:
  "7074237752028440 / 2 ^ 51 \<le> pi" "pi < (7074237752028440 + 1 / 2) / 2 ^ 51"
  unfolding pi_machin
  using arctan_partial_sums [of "1 / 5" 7] arctan_partial_sums [of "1 / 239" 2]
  by (simp_all add: eval_nat_numeral)

subsection \<open>The constant \<open>M_PI\<close>\<close>

text \<open>
  \<open>\<pi>\<close> is rounded down: \<open>M_PI\<close> is the double \<open>3.141592653589793\<close>, below \<open>\<pi>\<close>, and
  no rounded angle of \<open>[0, \<pi>]\<close> exceeds it.
\<close>

lemma rne_below_half: "of_int n \<le> a \<Longrightarrow> a < of_int n + 1 / 2 \<Longrightarrow> rne a = n"
proof -
  assume h: "of_int n \<le> a" "a < of_int n + 1 / 2"
  then have "\<lfloor>a\<rfloor> = n" by linarith
  then show ?thesis using h by (simp add: rne_def Let_def)
qed

lemma expo_pi: "expo pi = 1"
proof -
  have lo: "2 powi (- 2048) \<le> pi"
  proof -
    have "(2::real) powi (- 2048) \<le> 2 powi 1" by (rule power_int_increasing) simp_all
    also have "\<dots> \<le> pi" using pi_ge_two by simp
    finally show ?thesis .
  qed
  have hi: "pi < 2 powi 2048"
  proof -
    have "pi < 2 powi 2" using pi_less_4 by simp
    also have "(2::real) powi 2 \<le> 2 powi 2048" by (rule power_int_increasing) simp_all
    finally show ?thesis .
  qed
  have "2 powi (expo pi) \<le> pi" using expo_lower [OF lo] .
  also have "pi < 2 powi 2" using pi_less_4 by simp
  finally have a: "expo pi < 2" by (rule two_powi_less)
  have "(2::real) powi 1 \<le> pi" using pi_ge_two by simp
  also have "pi < 2 powi (expo pi + 1)" using expo_upper [OF hi] .
  finally have "1 < expo pi + 1" by (rule two_powi_less)
  then show ?thesis using a by simp
qed

lemma round_mag_pi: "round_mag pi = 7074237752028440 / 2 ^ 51"
proof -
  have q: "quantum pi = - 51" by (simp add: quantum_def expo_pi)
  have p: "(2::real) powi (- 51) = 1 / 2 ^ 51" by (simp add: two_powi)
  have "rne (pi / (1 / 2 ^ 51)) = 7074237752028440"
    using pi_between by (intro rne_below_half) (simp_all add: field_simps)
  then show ?thesis
    using pi_gt_zero by (simp add: round_mag_def q p)
qed

lemma round_mag_pi_le: "round_mag pi \<le> pi"
  using pi_between(1) by (simp add: round_mag_pi)

lemma round_mag_four: "round_mag 4 = 4"
  using round_mag_of_nat [of 4] by simp

lemma round_mag_le_pi:
  assumes "0 \<le> v" "v \<le> pi"
  shows "round_mag v \<le> round_mag pi" and "round_mag v < 2 ^ 1024"
proof -
  show le: "round_mag v \<le> round_mag pi"
    using assms by (rule round_mag_mono)
  have "round_mag pi \<le> round_mag 4"
    using pi_less_4 by (intro round_mag_mono) simp_all
  then have "round_mag v \<le> 4"
    using le round_mag_four by simp
  also have "(4::real) < 2 ^ 1024" by simp
  finally show "round_mag v < 2 ^ 1024" .
qed

lemma M_PI_value: "M_PI = Num False (round_mag pi)"
  using round_mag_le_pi(2) [of pi] pi_gt_zero
  by (simp add: M_PI_def round_real_def mk_def)

lemma round_real_le_M_PI:
  assumes "0 \<le> v" "v \<le> pi"
  shows "nonneg (round_real v) \<and> fle (round_real v) M_PI"
proof (cases "v = 0")
  case True
  then show ?thesis
    using round_mag_nonneg [of pi] by (auto simp: round_real_def M_PI_value fle_def)
next
  case False
  then have "round_real v = Num False (round_mag v)"
    using assms round_mag_le_pi(2) [OF assms] by (simp add: round_real_def mk_def)
  then show ?thesis
    using round_mag_le_pi(1) [OF assms] round_mag_nonneg [OF assms(1)]
    by (auto simp: M_PI_value fle_def)
qed

lemma M_PI_double: "M_PI = Num False (7074237752028440 / 2 ^ 51)"
  by (simp add: M_PI_value round_mag_pi)

lemma M_PI_literal: "M_PI = lit 3.141592653589793"
  unfolding M_PI_double by (simp add: ev)

subsection \<open>The error of one rounding\<close>

text \<open>
  Rounding to nearest moves a magnitude by at most half a unit in the last place: by at
  most the magnitude times \<open>2 powi (- 53)\<close>, or by \<open>2 powi (- 1075)\<close> among the
  subnormal doubles.
\<close>

lemma rne_error: "\<bar>of_int (rne t) - t\<bar> \<le> 1 / 2"
proof -
  have "of_int \<lfloor>t\<rfloor> \<le> t" "t < of_int \<lfloor>t\<rfloor> + 1" by linarith+
  then show ?thesis by (auto simp: rne_def Let_def)
qed

lemma round_mag_error:
  assumes "0 \<le> m"
  shows "\<bar>round_mag m - m\<bar> \<le> m / 2 ^ 53 + 2 powi (- 1075)"
proof (cases "m = 0")
  case True
  then show ?thesis by (simp add: round_mag_def)
next
  case False
  define q where "q = quantum m"
  have qpos: "(0::real) < 2 powi q" by simp
  have "round_mag m - m = (of_int (rne (m / 2 powi q)) - m / 2 powi q) * 2 powi q"
    using False by (simp add: round_mag_def q_def field_simps)
  then have "\<bar>round_mag m - m\<bar> = \<bar>of_int (rne (m / 2 powi q)) - m / 2 powi q\<bar> * 2 powi q"
    by (simp add: abs_mult)
  also have "\<dots> \<le> 1 / 2 * 2 powi q"
    using rne_error [of "m / 2 powi q"] by (intro mult_right_mono) simp_all
  finally have e: "\<bar>round_mag m - m\<bar> \<le> 2 powi q / 2" by simp
  have "2 powi q / 2 \<le> m / 2 ^ 53 + 2 powi (- 1075)"
  proof (cases "q = - 1074")
    case True
    have "(2::real) powi (- 1074) = 2 powi (- 1075 + 1)" by simp
    also have "\<dots> = 2 powi (- 1075) * 2" by (subst power_int_add) simp_all
    finally have "(2::real) powi (- 1074) / 2 = 2 powi (- 1075)" by simp
    then show ?thesis using True assms by simp
  next
    case False
    then have qe: "q = expo m - 52" and big: "- 1022 < expo m"
      unfolding q_def quantum_def by (simp_all add: max_def split: if_splits)
    have "2 powi (- 2048) \<le> m"
    proof (rule ccontr)
      assume "\<not> 2 powi (- 2048) \<le> m"
      then have "expo m = - 2048" by (intro expo_tiny) simp
      then show False using big by simp
    qed
    then have l: "2 powi (expo m) \<le> m" by (rule expo_lower)
    have "(2::real) powi q = 2 powi (expo m) * 2 powi (- 52)"
      unfolding qe by (subst power_int_add [symmetric]) simp_all
    also have "(2::real) powi (- 52) = 1 / 2 ^ 52" by (simp add: two_powi)
    finally have "(2::real) powi q / 2 = 2 powi (expo m) / 2 ^ 53" by simp
    also have "\<dots> \<le> m / 2 ^ 53" using l by (simp add: divide_right_mono)
    finally show ?thesis by (simp add: add_increasing2)
  qed
  then show ?thesis using e by linarith
qed

lemma half_ulp_le_ulp:
  assumes "0 \<le> (m::real)"
  shows "m / 2 ^ 53 + 2 powi (- 1075) \<le> m / 2 ^ 52 + 2 powi (- 1074)"
proof -
  have "(2::real) powi (- 1075) \<le> 2 powi (- 1074)"
    by (rule power_int_increasing) simp_all
  moreover have "m / 2 ^ 53 \<le> m / 2 ^ 52"
    using assms by (intro divide_left_mono) simp_all
  ultimately show ?thesis by linarith
qed

lemma round_mag_le_four: "0 \<le> m \<Longrightarrow> m \<le> 4 \<Longrightarrow> round_mag m \<le> 4"
  using round_mag_mono [of m 4] round_mag_of_nat [of 4] by simp

lemma within_ulp_zero: "within_ulp (Num s 0) 0"
  by (simp add: within_ulp_def)

lemma within_ulp_mk_1024:
  assumes "0 \<le> m" "m \<le> 1024"
  shows "within_ulp (mk s m) (if s then - m else m)"
proof -
  have "round_mag m \<le> round_mag 1024" using assms by (rule round_mag_mono)
  then have "round_mag m \<le> 1024" using round_mag_of_nat [of 1024] by simp
  then have "round_mag m < 2 ^ 1024"
    by (rule le_less_trans) simp
  then have k: "mk s m = Num s (round_mag m)" by (simp add: mk_def)
  have "\<bar>round_mag m - m\<bar> \<le> m / 2 ^ 52 + 2 powi (- 1074)"
    using round_mag_error [OF assms(1)] half_ulp_le_ulp [OF assms(1)] by linarith
  then show ?thesis
    using assms(1) by (auto simp: within_ulp_def k abs_minus_commute)
qed

lemma within_ulp_mk:
  assumes "0 \<le> m" "m \<le> 4"
  shows "within_ulp (mk s m) (if s then - m else m)"
  using assms by (intro within_ulp_mk_1024) simp_all

lemma within_ulp_round_real:
  assumes "\<bar>v\<bar> \<le> 4"
  shows "within_ulp (round_real v) v"
proof (cases "v = 0")
  case True
  then show ?thesis by (simp add: round_real_def within_ulp_def)
next
  case False
  have "within_ulp (mk (v < 0) \<bar>v\<bar>) (if v < 0 then - \<bar>v\<bar> else \<bar>v\<bar>)"
    using assms by (intro within_ulp_mk) simp_all
  moreover have "(if v < 0 then - \<bar>v\<bar> else \<bar>v\<bar>) = v" by simp
  ultimately show ?thesis using False by (simp add: round_real_def)
qed


lemma within_ulp_fsub:
  assumes "is_finite a" "is_finite b" "\<bar>valof a\<bar> \<le> 9" "\<bar>valof b\<bar> \<le> 9"
  shows "within_ulp (fsub a b) (valof a - valof b)"
proof -
  obtain s m where a: "a = Num s m" using assms(1) by (cases a) simp_all
  obtain t k where b: "b = Num t k" using assms(2) by (cases b) simp_all
  define r where "r = valof a - valof b"
  have r: "valof (Num s m) + valof (Num (\<not> t) k) = r"
    by (simp add: r_def a b)
  have f: "fsub a b = (if r = 0 then Num (s \<and> \<not> t) 0 else mk (r < 0) \<bar>r\<bar>)"
    unfolding fsub_def a b fneg.simps fadd.simps r Let_def ..
  show ?thesis
  proof (cases "r = 0")
    case True
    then show ?thesis unfolding f r_def [symmetric] by (simp add: within_ulp_zero)
  next
    case False
    have "\<bar>r\<bar> \<le> 1024" using assms(3,4) by (simp add: r_def)
    then have "within_ulp (mk (r < 0) \<bar>r\<bar>) (if r < 0 then - \<bar>r\<bar> else \<bar>r\<bar>)"
      by (intro within_ulp_mk_1024) simp_all
    moreover have "(if r < 0 then - \<bar>r\<bar> else \<bar>r\<bar>) = r" by simp
    ultimately show ?thesis unfolding f r_def [symmetric] using False by simp
  qed
qed

subsection \<open>The library functions\<close>

text \<open>
  \<open>atan2\<close> stays within \<open>[- \<pi>, \<pi>]\<close> and has the sign of its first argument. On finite
  arguments that are not negative zeros the library's \<open>atan2\<close> is the real one up to
  rounding; a negative zero makes it choose \<open>- \<pi>\<close> or \<open>\<pi>\<close> by the sign of the zero,
  which the real function cannot see.
\<close>

lemma atan2_bound: "\<bar>atan2 v u\<bar> \<le> pi"
proof -
  have a: "- (pi / 2) < arctan (v / u)" "arctan (v / u) < pi / 2"
    by (rule arctan_lbound, rule arctan_ubound)
  have n: "u < 0 \<Longrightarrow> 0 \<le> v \<Longrightarrow> arctan (v / u) \<le> 0"
    by (simp add: divide_nonneg_neg)
  have p: "u < 0 \<Longrightarrow> v < 0 \<Longrightarrow> 0 \<le> arctan (v / u)"
    by (simp add: divide_neg_neg less_imp_le)
  show ?thesis
    using a n p pi_gt_zero by (auto simp: atan2_def abs_if)
qed




lemma mk_angle:
  assumes "0 \<le> w" "w \<le> pi"
  shows "mk s w = Num s (round_mag w)" "round_mag w \<le> 4"
proof -
  have "w \<le> 4" using assms(2) pi_less_4 by linarith
  then show le: "round_mag w \<le> 4" using assms(1) by (intro round_mag_le_four)
  then have "round_mag w < 2 ^ 1024" by (rule le_less_trans) simp
  then show "mk s w = Num s (round_mag w)" by (simp add: mk_def)
qed

lemma fatan2_finite:
  assumes "is_finite a" "is_finite b"
  shows "is_finite (fatan2 a b) \<and> \<bar>valof (fatan2 a b)\<bar> \<le> 4"
proof -
  obtain s m where a: "a = Num s m" using assms(1) by (cases a) simp_all
  obtain t k where b: "b = Num t k" using assms(2) by (cases b) simp_all
  have p: "0 \<le> pi" "pi \<le> pi" "0 \<le> pi / 2" "pi / 2 \<le> pi" by simp_all
  have n: "0 \<le> round_mag w" if "0 \<le> w" for w using that by (rule round_mag_nonneg)
  have A: "0 \<le> \<bar>atan2 (valof a) (valof b)\<bar>" "\<bar>atan2 (valof a) (valof b)\<bar> \<le> pi"
    using atan2_bound by simp_all
  show ?thesis
    using mk_angle(1) [OF p(1,2), of s] mk_angle(1) [OF p(3,4), of s]
      mk_angle(1) [OF A, of s] mk_angle(2) [OF p(1,2)] mk_angle(2) [OF p(3,4)]
      mk_angle(2) [OF A] n [OF p(1)] n [OF p(3)] n [OF A(1)]
    by (auto simp: a b)
qed

lemma round_real_angle:
  assumes "0 \<le> v" "v \<le> pi"
  obtains t where "round_real v = Num False t" "0 \<le> t" "t \<le> pi"
proof (cases "v = 0")
  case True
  then show ?thesis using that [of 0] by (simp add: round_real_def)
next
  case False
  have le: "round_mag v \<le> round_mag pi" using assms by (rule round_mag_mono)
  then have "round_mag v \<le> pi" using round_mag_pi_le by linarith
  moreover have "round_mag v < 2 ^ 1024"
  proof -
    have "v \<le> 4" using assms(2) pi_less_4 by linarith
    then have "round_mag v \<le> 4" using assms(1) by (intro round_mag_le_four)
    then show ?thesis by (rule le_less_trans) simp
  qed
  moreover have "0 \<le> round_mag v" using assms(1) by (rule round_mag_nonneg)
  ultimately show ?thesis
    using that [of "round_mag v"] False assms(1) by (simp add: round_real_def mk_def)
qed

lemma round_real_unit:
  assumes "\<bar>v\<bar> \<le> 1"
  obtains s r where "round_real v = Num s r" "0 \<le> r" "r \<le> 1" "s \<longrightarrow> v < 0"
proof (cases "v = 0")
  case True
  then show ?thesis using that [of False 0] by (simp add: round_real_def)
next
  case False
  have "round_mag \<bar>v\<bar> \<le> round_mag 1" using assms by (intro round_mag_mono) simp_all
  then have le: "round_mag \<bar>v\<bar> \<le> 1" using round_mag_of_nat [of 1] by simp
  then have "round_mag \<bar>v\<bar> < 2 ^ 1024" by (rule le_less_trans) simp
  moreover have "0 \<le> round_mag \<bar>v\<bar>" by (rule round_mag_nonneg) simp
  ultimately show ?thesis
    using that [of "v < 0" "round_mag \<bar>v\<bar>"] False le by (simp add: round_real_def mk_def)
qed

subsection \<open>The grid of the doubles\<close>

text \<open>
  Every double is a whole multiple of \<open>2 powi (- 1074)\<close>, so two doubles that differ are
  at least that far apart, and a sum of two doubles that is not zero is not rounded to
  zero.
\<close>

lemma round_mag_grid:
  assumes "0 \<le> m"
  shows "\<exists>i::int. round_mag m = of_int i * 2 powi (- 1074)"
proof (cases "m = 0")
  case True
  then show ?thesis by (intro exI [of _ 0]) (simp add: round_mag_def)
next
  case False
  define q where "q = quantum m"
  define n where "n = nat (q + 1074)"
  have "- 1074 \<le> q" unfolding q_def by (rule quantum_ge)
  then have qn: "q = int n + (- 1074)" by (simp add: n_def)
  have "(2::real) powi (int n + (- 1074)) = 2 powi (int n) * 2 powi (- 1074)"
    by (rule power_int_add) simp
  then have "(2::real) powi q = 2 ^ n * 2 powi (- 1074)"
    unfolding qn by (simp only: power_int_of_nat)
  then have "round_mag m = of_int (rne (m / 2 powi q) * 2 ^ n) * 2 powi (- 1074)"
    using False by (simp add: round_mag_def q_def)
  then show ?thesis by blast
qed

lemma double_grid:
  assumes "is_double (Num s m)"
  shows "\<exists>i::int. m = of_int i * 2 powi (- 1074)"
proof -
  have m: "0 \<le> m" using assms by simp
  then have "round_mag m = m" using assms by (simp add: exact_def)
  then show ?thesis using round_mag_grid [OF m] by simp
qed

lemma grid_gap:
  fixes i j :: int
  assumes "a = of_int i * 2 powi (- 1074)" "b = of_int j * 2 powi (- 1074)" "a \<noteq> (b::real)"
  shows "2 powi (- 1074) \<le> \<bar>a - b\<bar>"
proof -
  define u :: real where "u = 2 powi (- 1074)"
  have u: "0 < u" by (simp add: u_def)
  have "a - b = of_int (i - j) * u"
    using assms(1,2) by (simp add: u_def algebra_simps)
  moreover have "i \<noteq> j" using assms by auto
  then have "1 \<le> \<bar>i - j\<bar>" by linarith
  then have "(1::real) \<le> of_int \<bar>i - j\<bar>" by (simp only: of_int_1_le_iff)
  then have "1 \<le> \<bar>of_int (i - j) :: real\<bar>" by simp
  ultimately have "1 * u \<le> \<bar>a - b\<bar>"
    using u by (simp add: abs_mult)
  then show ?thesis by (simp add: u_def)
qed

lemma fmul_by_fraction:
  assumes "0 \<le> a" "0 \<le> b" "b \<le> 1" "round_mag a = a" "a < 2 ^ 1024"
  shows "fmul (Num s a) (Num t b) = Num (s \<noteq> t) (round_mag (a * b))"
    and "round_mag (a * b) \<le> a"
proof -
  have "a * b \<le> a * 1" using assms(1,3) by (intro mult_left_mono)
  then have "round_mag (a * b) \<le> round_mag a"
    using assms(1,2) by (intro round_mag_mono) simp_all
  then show le: "round_mag (a * b) \<le> a" using assms(4) by simp
  then have "round_mag (a * b) < 2 ^ 1024" using assms(5) by (rule le_less_trans)
  then show "fmul (Num s a) (Num t b) = Num (s \<noteq> t) (round_mag (a * b))"
    by (simp add: mk_def)
qed

lemma round_mag_two_513: "round_mag (2 ^ 513) = 2 ^ 513"
  using round_mag_exact [of 1 513] by (simp add: two_powi)

lemma fadd_on_grid:
  fixes i j :: int
  assumes a: "a = of_int i * 2 powi (- 1074)" and b: "b = of_int j * 2 powi (- 1074)"
    and le: "a < 2 ^ 512" "b < 2 ^ 512" and nn: "0 \<le> a" "0 \<le> b"
  shows "is_finite (fadd (Num s a) (Num t b))"
    and "\<not> s \<Longrightarrow> fadd (Num s a) (Num t b) \<noteq> Num True 0"
proof -
  define r where "r = valof (Num s a) + valof (Num t b)"
  have va: "valof (Num s a) = of_int (if s then - i else i) * 2 powi (- 1074)"
    using a by simp
  have vb: "- valof (Num t b) = of_int (if t then j else - j) * 2 powi (- 1074)"
    using b by simp
  have gap: "2 powi (- 1074) \<le> \<bar>r\<bar>" if "r \<noteq> 0"
  proof -
    have "valof (Num s a) \<noteq> - valof (Num t b)" using that by (simp add: r_def)
    then have "2 powi (- 1074) \<le> \<bar>valof (Num s a) - (- valof (Num t b))\<bar>"
      by (rule grid_gap [OF va vb])
    then show ?thesis by (simp add: r_def)
  qed
  have "\<bar>r\<bar> \<le> a + b" using nn by (auto simp: r_def)
  also have "\<dots> \<le> 2 ^ 512 + 2 ^ 512" using le by linarith
  also have "\<dots> = (2::real) ^ 513" by simp
  finally have "round_mag \<bar>r\<bar> \<le> round_mag (2 ^ 513)"
    by (intro round_mag_mono) simp_all
  then have "round_mag \<bar>r\<bar> \<le> 2 ^ 513" by (simp only: round_mag_two_513)
  also have "(2::real) ^ 513 < 2 ^ 1024" by simp
  finally have small: "round_mag \<bar>r\<bar> < 2 ^ 1024" .
  have f: "fadd (Num s a) (Num t b)
      = (if r = 0 then Num (s \<and> t) 0 else Num (r < 0) (round_mag \<bar>r\<bar>))"
    using small by (simp add: r_def Let_def mk_def)
  show "is_finite (fadd (Num s a) (Num t b))"
    by (simp only: f is_finite.simps if_distrib [of is_finite] if_cancel)
  show "fadd (Num s a) (Num t b) \<noteq> Num True 0" if "\<not> s"
  proof (cases "r = 0")
    case True
    then show ?thesis unfolding f using that by simp
  next
    case False
    have "(0::real) < 2 powi (- 1074)" by simp
    also have "\<dots> \<le> round_mag \<bar>r\<bar>"
      using gap [OF False] by (rule round_mag_pos)
    finally have "round_mag \<bar>r\<bar> \<noteq> 0" by simp
    then show ?thesis unfolding f using False by simp
  qed
qed

subsection \<open>The steps of the solver\<close>

text \<open>
  The second angle is \<open>acos\<close> of the quotient, the first the difference of two
  \<open>atan2\<close>. When the quotient is finite the squares of the link lengths have not
  overflowed, so that the link lengths are below \<open>2 ^ 512\<close> and the elbow point is
  finite.
\<close>

lemma theta2_is_facos: "cy (from_pos_to_angle pos L) = facos (acos_arg pos L)"
  by (simp add: from_pos_to_angle_def acos_arg_def Let_def)

lemma theta1_is_fsub:
  "cx (from_pos_to_angle pos L)
     = fsub (fatan2 (cy pos) (cx pos)) (fatan2 (cy (elbow pos L)) (cx (elbow pos L)))"
  by (simp add: from_pos_to_angle_def elbow_def Let_def)

lemma in_acos_domain_cases:
  assumes "in_acos_domain q"
  obtains s m where "q = Num s m" "m \<le> 1" "- 1 \<le> valof q" "valof q \<le> 1"
proof (cases q)
  case (Num s m)
  then have "- 1 \<le> valof q" "valof q \<le> 1"
    using assms by (auto simp: in_acos_domain_def fle_def)
  moreover from this have "m \<le> 1" using Num by (cases s) simp_all
  ultimately show ?thesis using that Num by blast
next
  case (Infty s)
  then show ?thesis using assms by (cases s) (simp_all add: in_acos_domain_def fle_def)
next
  case NaN
  then show ?thesis using assms by (simp add: in_acos_domain_def fle_def)
qed

lemma is_finite_fadd: "is_finite (fadd a b) \<Longrightarrow> is_finite a \<and> is_finite b"
  by (cases a; cases b) (simp_all split: if_splits)

lemma is_finite_fsub: "is_finite (fsub a b) \<Longrightarrow> is_finite a \<and> is_finite b"
  using is_finite_fadd [of a "fneg b"] by (cases b) (simp_all add: fsub_def)

lemma is_finite_fdiv: "is_finite (fdiv a b) \<Longrightarrow> is_finite a"
  by (cases a; cases b) (simp_all split: if_splits)

lemma round_mag_two_1024: "round_mag (2 ^ 1024) = 2 ^ 1024"
  using round_mag_exact [of 1 1024] by (simp add: two_powi)

lemma square_finite:
  assumes "0 \<le> m" "is_finite (fmul (Num s m) (Num s m))"
  shows "m < 2 ^ 512"
proof (rule ccontr)
  assume "\<not> m < 2 ^ 512"
  then have "2 ^ 512 \<le> m" by simp
  then have "(2::real) ^ 512 * 2 ^ 512 \<le> m * m"
    by (intro mult_mono) simp_all
  then have "(2::real) ^ 1024 \<le> m * m"
    by (simp flip: power_add)
  then have "round_mag (2 ^ 1024) \<le> round_mag (m * m)"
    by (intro round_mag_mono) simp_all
  then have "2 ^ 1024 \<le> round_mag (m * m)"
    by (simp only: round_mag_two_1024)
  then show False using assms(2) by (simp add: mk_def)
qed

lemma squares_finite:
  assumes "is_finite (acos_arg pos L)"
  shows "is_finite (fmul (cx L) (cx L))" "is_finite (fmul (cy L) (cy L))"
proof -
  have n2: "is_finite (fsub (fsub (fadd (fmul (cx pos) (cx pos)) (fmul (cy pos) (cy pos)))
      (fmul (cx L) (cx L))) (fmul (cy L) (cy L)))"
    using assms unfolding acos_arg_def by (rule is_finite_fdiv)
  then show "is_finite (fmul (cy L) (cy L))"
    using is_finite_fsub by blast
  have "is_finite (fsub (fadd (fmul (cx pos) (cx pos)) (fmul (cy pos) (cy pos)))
      (fmul (cx L) (cx L)))"
    using n2 is_finite_fsub by blast
  then show "is_finite (fmul (cx L) (cx L))"
    using is_finite_fsub by blast
qed

lemma positive_double:
  assumes "is_double d" "flt (lit 0) d"
  obtains m where "d = Num False m" "0 < m" "round_mag m = m" "m < 2 ^ 1024"
proof -
  obtain s m where d: "d = Num s m" using assms(1) by (cases d) simp_all
  have m: "0 \<le> m" "exact m" using assms(1) d by simp_all
  have "\<not> s" "0 < m" using assms(2) m(1) d by (auto split: if_splits)
  then show ?thesis using that [of m] d m by (simp add: exact_def)
qed

lemma solver_steps:
  assumes d: "is_double (cx L)" "is_double (cy L)"
    and lp: "flt (lit 0) (cx L)" "flt (lit 0) (cy L)"
    and dom: "in_acos_domain (acos_arg pos L)"
  shows "within_ulp (cy (from_pos_to_angle pos L)) (arccos (valof (acos_arg pos L)))"
    and "\<exists>t. cy (from_pos_to_angle pos L) = Num False t \<and> 0 \<le> t \<and> t \<le> pi"
    and "within_ulp (fsin (cy (from_pos_to_angle pos L))) (sin (valof (cy (from_pos_to_angle pos L))))"
    and "within_ulp (fcos (cy (from_pos_to_angle pos L))) (cos (valof (cy (from_pos_to_angle pos L))))"
    and "is_finite (cx (elbow pos L))" "is_finite (cy (elbow pos L))"
    and "cx (elbow pos L) \<noteq> Num True 0" "cy (elbow pos L) \<noteq> Num True 0"
    and "mag_ok (cy (elbow pos L))"
proof -
  obtain s m where q: "acos_arg pos L = Num s m" "m \<le> 1"
      "- 1 \<le> valof (acos_arg pos L)" "valof (acos_arg pos L) \<le> 1"
    using dom by (rule in_acos_domain_cases)
  define v where "v = arccos (valof (acos_arg pos L))"
  have v: "0 \<le> v" "v \<le> pi"
    using q(3,4) by (simp_all add: v_def arccos_lbound arccos_ubound)
  have th: "cy (from_pos_to_angle pos L) = round_real v"
    using q(1,2) by (simp add: theta2_is_facos v_def)
  have "\<bar>v\<bar> \<le> 4" using v pi_less_4 by simp
  then show "within_ulp (cy (from_pos_to_angle pos L)) (arccos (valof (acos_arg pos L)))"
    unfolding th v_def [symmetric] by (rule within_ulp_round_real)
  obtain t where t: "round_real v = Num False t" "0 \<le> t" "t \<le> pi"
    using v by (rule round_real_angle)
  then show "\<exists>t. cy (from_pos_to_angle pos L) = Num False t \<and> 0 \<le> t \<and> t \<le> pi"
    using th by simp
  have th2: "cy (from_pos_to_angle pos L) = Num False t" using th t(1) by simp
  txt \<open>The sine of the elbow angle is not negative.\<close>
  have sn: "0 \<le> sin t" using t(2,3) by (rule sin_ge_zero)
  obtain ss r where r: "round_real (sin t) = Num ss r" "0 \<le> r" "r \<le> 1" "ss \<longrightarrow> sin t < 0"
    using round_real_unit [of "sin t", OF abs_sin_le_one] by metis
  then have ss: "\<not> ss" using sn by auto
  define r' where "r' = (if t = 0 then 0 else r)"
  have fs: "fsin (Num False t) = Num False r'" and r': "0 \<le> r'" "r' \<le> 1"
    using r ss by (simp_all add: r'_def)
  obtain sc rc where rc: "round_real (cos t) = Num sc rc" "0 \<le> rc" "rc \<le> 1"
    using round_real_unit [of "cos t", OF abs_cos_le_one] by metis
  have fc: "fcos (Num False t) = Num sc rc" using rc(1) by simp
  have "within_ulp (fsin (Num False t)) (sin t)"
  proof (cases "t = 0")
    case True
    then show ?thesis by (simp add: within_ulp_zero)
  next
    case False
    have "within_ulp (round_real (sin t)) (sin t)"
      by (rule within_ulp_round_real) (simp add: order_trans [OF abs_sin_le_one])
    then show ?thesis using False by simp
  qed
  then show "within_ulp (fsin (cy (from_pos_to_angle pos L)))
      (sin (valof (cy (from_pos_to_angle pos L))))"
    by (simp add: th2)
  have "within_ulp (round_real (cos t)) (cos t)"
    by (rule within_ulp_round_real) (simp add: order_trans [OF abs_cos_le_one])
  then show "within_ulp (fcos (cy (from_pos_to_angle pos L)))
      (cos (valof (cy (from_pos_to_angle pos L))))"
    by (simp add: th2)
  txt \<open>The two links.\<close>
  obtain l1 where l1: "cx L = Num False l1" "0 < l1" "round_mag l1 = l1" "l1 < 2 ^ 1024"
    using d(1) lp(1) by (rule positive_double)
  obtain l2 where l2: "cy L = Num False l2" "0 < l2" "round_mag l2 = l2" "l2 < 2 ^ 1024"
    using d(2) lp(2) by (rule positive_double)
  have fin: "is_finite (acos_arg pos L)" using q(1) by simp
  have b1: "l1 < 2 ^ 512"
    using squares_finite(1) [OF fin] l1(2) unfolding l1(1) by (intro square_finite) simp_all
  have b2: "l2 < 2 ^ 512"
    using squares_finite(2) [OF fin] l2(2) unfolding l2(1) by (intro square_finite) simp_all
  txt \<open>The two coordinates of the elbow.\<close>
  have k2: "fmul (Num False l2) (Num False r') = Num False (round_mag (l2 * r'))"
    using fmul_by_fraction(1) [of l2 r' False False] l2 r' by simp
  have "cy (elbow pos L) = fmul (cy L) (fsin (cy (from_pos_to_angle pos L)))"
    by (simp add: elbow_def Let_def)
  then have ey: "cy (elbow pos L) = Num False (round_mag (l2 * r'))"
    unfolding th2 fs l2(1) k2 .
  have p2: "fmul (Num False l2) (Num sc rc) = Num sc (round_mag (l2 * rc))"
    and g: "round_mag (l2 * rc) \<le> l2"
    using fmul_by_fraction(1) [of l2 rc False sc] fmul_by_fraction(2) [of l2 rc] l2 rc
    by simp_all
  have "cx (elbow pos L)
      = fadd (cx L) (fmul (cy L) (fcos (cy (from_pos_to_angle pos L))))"
    by (simp add: elbow_def Let_def)
  then have ex: "cx (elbow pos L) = fadd (Num False l1) (Num sc (round_mag (l2 * rc)))"
    unfolding th2 fc l1(1) l2(1) p2 .
  obtain i :: int where i: "l1 = of_int i * 2 powi (- 1074)"
    using double_grid [of False l1] d(1) l1(1) by auto
  obtain j :: int where j: "round_mag (l2 * rc) = of_int j * 2 powi (- 1074)"
    using round_mag_grid [of "l2 * rc"] l2(2) rc(2) by auto
  have gb: "round_mag (l2 * rc) < 2 ^ 512" using g b2 by linarith
  have gn: "0 \<le> round_mag (l2 * rc)"
    using l2(2) rc(2) by (intro round_mag_nonneg) simp
  have l1n: "0 \<le> l1" using l1(2) by simp
  show "is_finite (cx (elbow pos L))"
    unfolding ex by (rule fadd_on_grid(1) [OF i j b1 gb l1n gn])
  show "cx (elbow pos L) \<noteq> Num True 0"
    unfolding ex by (rule fadd_on_grid(2) [OF i j b1 gb l1n gn]) simp
  show "is_finite (cy (elbow pos L))" "cy (elbow pos L) \<noteq> Num True 0"
    by (simp_all add: ey)
  have "0 \<le> round_mag (l2 * r')"
    using l2(2) r'(1) by (intro round_mag_nonneg) simp
  then show "mag_ok (cy (elbow pos L))"
    by (simp add: ey)
qed

text \<open>
  Whenever the quotient is in the domain of the arc cosine, both angles are finite and
  the elbow angle lies between zero and \<open>M_PI\<close>, hence in \<open>[0, \<pi>]\<close>.
\<close>

lemma angles_finite_in_domain:
  assumes "is_double (cx pos)" "is_double (cy pos)" "is_double (cx L)" "is_double (cy L)"
    and "flt (lit 0) (cx L)" "flt (lit 0) (cy L)"
    and "in_acos_domain (acos_arg pos L)"
  shows "is_finite (cx (from_pos_to_angle pos L))"
    and "is_finite (cy (from_pos_to_angle pos L))"
    and "nonneg (cy (from_pos_to_angle pos L))"
    and "fle (cy (from_pos_to_angle pos L)) M_PI"
    and "valof (cy (from_pos_to_angle pos L)) \<le> pi"
proof -
  note s = solver_steps [OF assms(3,4,5,6,7)]
  obtain t where t: "cy (from_pos_to_angle pos L) = Num False t" "0 \<le> t" "t \<le> pi"
    using s(2) by blast
  show "is_finite (cy (from_pos_to_angle pos L))" "nonneg (cy (from_pos_to_angle pos L))"
    "valof (cy (from_pos_to_angle pos L)) \<le> pi"
    using t by simp_all
  obtain sq m where q: "acos_arg pos L = Num sq m" "m \<le> 1"
      "- 1 \<le> valof (acos_arg pos L)" "valof (acos_arg pos L) \<le> 1"
    using assms(7) by (rule in_acos_domain_cases)
  have "cy (from_pos_to_angle pos L) = round_real (arccos (valof (acos_arg pos L)))"
    using q(1,2) by (simp add: theta2_is_facos)
  then show "fle (cy (from_pos_to_angle pos L)) M_PI"
    using round_real_le_M_PI [of "arccos (valof (acos_arg pos L))"] q(3,4)
    by (simp add: arccos_lbound arccos_ubound)
  have fx: "is_finite (cx pos)" using assms(1) by (cases "cx pos") simp_all
  have fy: "is_finite (cy pos)" using assms(2) by (cases "cy pos") simp_all
  have a: "is_finite (fatan2 (cy pos) (cx pos))" "\<bar>valof (fatan2 (cy pos) (cx pos))\<bar> \<le> 9"
    using fatan2_finite [OF fy fx] by simp_all
  have b: "is_finite (fatan2 (cy (elbow pos L)) (cx (elbow pos L)))"
    "\<bar>valof (fatan2 (cy (elbow pos L)) (cx (elbow pos L)))\<bar> \<le> 9"
    using fatan2_finite [OF s(6,5)] by simp_all
  have "within_ulp (cx (from_pos_to_angle pos L))
      (valof (fatan2 (cy pos) (cx pos))
       - valof (fatan2 (cy (elbow pos L)) (cx (elbow pos L))))"
    unfolding theta1_is_fsub using a(1) b(1) a(2) b(2) by (rule within_ulp_fsub)
  then show "is_finite (cx (from_pos_to_angle pos L))" by (simp add: within_ulp_def)
qed

subsection \<open>The angles up to rounding\<close>




subsection \<open>Where the angles are not those of the exact formulas\<close>




text \<open>
  Both links \<open>0.7\<close>, the position \<open>(1.4, 0)\<close> on the outer circle. The doubles that the
  solver goes through: the quotient is rounded to the double next below one.
\<close>

lemma almost_extended_trace:
  "norm2d (lit 1.4) (lit 0) = lit 1.4"
  "fadd (lit 0.7) (lit 0.7) = lit 1.4"
  "fmul (lit 1.4) (lit 1.4) = lit 1.9599999999999997"
  "fmul (lit 0.7) (lit 0.7) = lit 0.48999999999999994"
  "fsub (lit 1.9599999999999997) (lit 0.48999999999999994) = lit 1.4699999999999998"
  "fsub (lit 1.4699999999999998) (lit 0.48999999999999994) = lit 0.9799999999999998"
  "fmul (fmul (lit 2) (lit 0.7)) (lit 0.7) = lit 0.9799999999999999"
  "fdiv (lit 0.9799999999999998) (lit 0.9799999999999999) = lit 0.9999999999999999"
  "lit 0.9999999999999999 = Num False (1 - 1 / 2 ^ 53)"
  by (simp_all add: ev)










subsection \<open>Over the real numbers\<close>

text \<open>Away from the origin, \<open>atan2 v u\<close> is the angle of the point \<open>(u, v)\<close>.\<close>

lemma sqrt_ratio:
  assumes "u \<noteq> 0"
  shows "sqrt (1 + (v / u)\<^sup>2) = sqrt (u * u + v * v) / \<bar>u\<bar>"
proof -
  have "1 + (v / u)\<^sup>2 = (u * u + v * v) / (u * u)"
    using assms by (simp add: field_simps power2_eq_square)
  then show ?thesis
    by (simp add: real_sqrt_divide)
qed

lemma atan2_cos:
  assumes "u \<noteq> 0 \<or> v \<noteq> 0"
  shows "cos (atan2 v u) = u / sqrt (u * u + v * v)"
proof (cases "u = 0")
  case True
  then show ?thesis using assms by (simp add: atan2_def)
next
  case False
  then show ?thesis
    by (auto simp: atan2_def cos_arctan sqrt_ratio)
qed

lemma atan2_sin:
  assumes "u \<noteq> 0 \<or> v \<noteq> 0"
  shows "sin (atan2 v u) = v / sqrt (u * u + v * v)"
proof (cases "u = 0")
  case True
  then show ?thesis using assms by (auto simp: atan2_def real_sqrt_mult)
next
  case False
  then show ?thesis
    by (auto simp: atan2_def sin_arctan sqrt_ratio)
qed

text \<open>
In the annulus the argument of the arc cosine lies in \<open>[-1, 1]\<close>.
\<close>

lemma annulus_quotient:
  assumes "0 < L1" "0 < L2"
    and "\<bar>L1 - L2\<bar> \<le> sqrt (x * x + y * y)" "sqrt (x * x + y * y) \<le> L1 + L2"
  shows "- 1 \<le> (x * x + y * y - L1 * L1 - L2 * L2) / (2 * L1 * L2)"
    and "(x * x + y * y - L1 * L1 - L2 * L2) / (2 * L1 * L2) \<le> 1"
proof -
  have nn: "0 \<le> x * x + y * y" by simp
  have "\<bar>L1 - L2\<bar>\<^sup>2 \<le> (sqrt (x * x + y * y))\<^sup>2"
    using assms(3) by (intro power_mono) simp_all
  then have lo: "(L1 - L2)\<^sup>2 \<le> x * x + y * y"
    using nn by simp
  have "(sqrt (x * x + y * y))\<^sup>2 \<le> (L1 + L2)\<^sup>2"
    using assms(4) by (intro power_mono) simp_all
  then have hi: "x * x + y * y \<le> (L1 + L2)\<^sup>2"
    using nn by simp
  have p: "0 < 2 * L1 * L2" using assms by simp
  show "- 1 \<le> (x * x + y * y - L1 * L1 - L2 * L2) / (2 * L1 * L2)"
    using lo p by (simp add: field_simps power2_eq_square)
  show "(x * x + y * y - L1 * L1 - L2 * L2) / (2 * L1 * L2) \<le> 1"
    using hi p by (simp add: field_simps power2_eq_square)
qed

text \<open>
  Over the real numbers, for positive link lengths and a position in the annulus, the
  forward kinematics of the angles of the two formulas is the position again.
\<close>

lemma forward_kinematics_roundtrip_real:
  assumes "0 < L1" "0 < L2"
    and "\<bar>L1 - L2\<bar> \<le> sqrt (x * x + y * y)" "sqrt (x * x + y * y) \<le> L1 + L2"
  shows "forward_kinematics_real (from_pos_to_angle_real (x, y) (L1, L2)) (L1, L2) = (x, y)"
proof -
  define q where "q = (x * x + y * y - L1 * L1 - L2 * L2) / (2 * L1 * L2)"
  define t2 where "t2 = arccos q"
  define k1 where "k1 = L1 + L2 * cos t2"
  define k2 where "k2 = L2 * sin t2"
  define t1 where "t1 = atan2 y x - atan2 k2 k1"
  define r where "r = sqrt (x * x + y * y)"
  have q: "- 1 \<le> q" "q \<le> 1"
    using annulus_quotient [OF assms] by (simp_all add: q_def)
  have c2: "cos t2 = q" using q by (simp add: t2_def)
  have s2: "(sin t2)\<^sup>2 = 1 - q\<^sup>2"
    using c2 sin_cos_squared_add [of t2] by (simp add: algebra_simps)
  have sol: "from_pos_to_angle_real (x, y) (L1, L2) = (t1, t2)"
    by (simp add: from_pos_to_angle_real_def Let_def t1_def t2_def q_def k1_def k2_def)
  have kk: "k1 * k1 + k2 * k2 = x * x + y * y"
  proof -
    have "k1 * k1 + k2 * k2 = L1 * L1 + 2 * L1 * L2 * q + L2 * L2 * (q\<^sup>2 + (sin t2)\<^sup>2)"
      by (simp add: k1_def k2_def c2 algebra_simps power2_eq_square)
    also have "\<dots> = L1 * L1 + 2 * L1 * L2 * q + L2 * L2"
      by (simp add: s2)
    also have "\<dots> = x * x + y * y"
      using assms(1,2) by (simp add: q_def field_simps)
    finally show ?thesis .
  qed
  have fk: "forward_kinematics_real (t1, t2) (L1, L2)
      = (k1 * cos t1 - k2 * sin t1, k1 * sin t1 + k2 * cos t1)"
    by (simp add: forward_kinematics_real_def k1_def k2_def cos_add sin_add algebra_simps)
  show ?thesis
  proof (cases "x = 0 \<and> y = 0")
    case True
    then have "k1 * k1 + k2 * k2 = 0" using kk by simp
    then have "k1 = 0" "k2 = 0"
      by (simp_all flip: power2_eq_square)
    then have "k1 * cos t1 - k2 * sin t1 = x" "k1 * sin t1 + k2 * cos t1 = y"
      using True by simp_all
    then show ?thesis by (simp only: sol fk)
  next
    case False
    then have xy: "x \<noteq> 0 \<or> y \<noteq> 0" by simp
    then have rpos: "0 < r"
      unfolding r_def by (auto simp: sum_power2_gt_zero_iff simp flip: power2_eq_square)
    then have rr: "r * r = x * x + y * y"
      by (simp add: r_def)
    have k: "k1 \<noteq> 0 \<or> k2 \<noteq> 0"
      using kk rr rpos by auto
    have rk: "sqrt (k1 * k1 + k2 * k2) = r"
      by (simp add: kk r_def)
    have cphi: "cos (atan2 y x) = x / r" and sphi: "sin (atan2 y x) = y / r"
      using atan2_cos [OF xy] atan2_sin [OF xy] by (simp_all add: r_def)
    have cpsi: "cos (atan2 k2 k1) = k1 / r" and spsi: "sin (atan2 k2 k1) = k2 / r"
      using atan2_cos [OF k] atan2_sin [OF k] by (simp_all add: rk)
    have c1: "cos t1 = (x * k1 + y * k2) / (r * r)"
      by (simp add: t1_def cos_diff cphi sphi cpsi spsi add_divide_distrib)
    have s1: "sin t1 = (y * k1 - x * k2) / (r * r)"
      by (simp add: t1_def sin_diff cphi sphi cpsi spsi diff_divide_distrib)
    have nz: "r * r \<noteq> 0" using rpos by simp
    have "k1 * cos t1 - k2 * sin t1 = x * (k1 * k1 + k2 * k2) / (r * r)"
      unfolding c1 s1 using nz by (simp add: field_simps)
    then have X: "k1 * cos t1 - k2 * sin t1 = x"
      using nz by (simp add: kk rr)
    have "k1 * sin t1 + k2 * cos t1 = y * (k1 * k1 + k2 * k2) / (r * r)"
      unfolding c1 s1 using nz by (simp add: field_simps)
    then have Y: "k1 * sin t1 + k2 * cos t1 = y"
      using nz by (simp add: kk rr)
    show ?thesis by (simp add: sol fk X Y)
  qed
qed

subsection \<open>The arm fully extended\<close>

text \<open>
  Two runs that start on the outer circle and pass the feasibility check: from
  \<open>(0.6, 0)\<close> to \<open>(0, 0.6)\<close> with both links \<open>0.3\<close>, and the same doubled.
\<close>

lemma run_from_full_extension:
  "is_given_inputs_feasible \<lparr>cx = lit 0.6, cy = lit 0\<rparr> \<lparr>cx = lit 0, cy = lit 0.6\<rparr>
     \<lparr>cx = lit 0.3, cy = lit 0.3\<rparr> = Inr True"
  "is_given_inputs_feasible \<lparr>cx = lit 1.2, cy = lit 0\<rparr> \<lparr>cx = lit 0, cy = lit 1.2\<rparr>
     \<lparr>cx = lit 0.6, cy = lit 0.6\<rparr> = Inr True"
  by (simp_all add: is_given_inputs_feasible_def ev)

text \<open>
  Both links \<open>0.3\<close>, the position \<open>(0.6, 0)\<close>. The doubles that the solver goes
  through, each written as the decimal literal that denotes it: the numerator is rounded
  to \<open>0.18000000000000002\<close>, the denominator to \<open>0.18\<close>, and their quotient is above
  one.
\<close>

lemma full_extension_trace:
  "norm2d (lit 0.6) (lit 0) = lit 0.6"
  "fadd (lit 0.3) (lit 0.3) = lit 0.6"
  "fmul (lit 0.6) (lit 0.6) = lit 0.36"
  "fadd (lit 0.36) (fmul (lit 0) (lit 0)) = lit 0.36"
  "fmul (lit 0.3) (lit 0.3) = lit 0.09"
  "fsub (lit 0.36) (lit 0.09) = lit 0.27"
  "fsub (lit 0.27) (lit 0.09) = lit 0.18000000000000002"
  "fmul (fmul (lit 2) (lit 0.3)) (lit 0.3) = lit 0.18"
  "fdiv (lit 0.18000000000000002) (lit 0.18) = lit 1.0000000000000002"
  "facos (lit 1.0000000000000002) = NaN"
  by (simp_all add: ev)

lemma full_extension:
  "reachable \<lparr>cx = lit 0.6, cy = lit 0\<rparr> \<lparr>cx = lit 0.3, cy = lit 0.3\<rparr>"
  "flt (lit 0) (lit 0.3)"
  "from_pos_to_angle \<lparr>cx = lit 0.6, cy = lit 0\<rparr> \<lparr>cx = lit 0.3, cy = lit 0.3\<rparr>
     = \<lparr>cx = NaN, cy = NaN\<rparr>"
  by (simp_all add: reachable_def from_pos_to_angle_def ev)

text \<open>
  The position is on the outer circle in exact arithmetic as well: the double \<open>0.6\<close> is
  twice the double \<open>0.3\<close>. There the exact formula gives \<open>theta2 = 0\<close>.
\<close>

lemma on_axis:
  "0 \<le> valof a \<Longrightarrow> sqrt (valof a * valof a + valof (lit 0) * valof (lit 0)) = valof a"
  by simp

lemma full_extension_exact:
  "0 \<le> valof (lit 0.6)"
  "valof (lit 0.3) + valof (lit 0.3) = valof (lit 0.6)"
  "0 < valof (lit 0.3)"
  by (simp_all add: ev)

lemma full_extension_in_annulus:
  "\<bar>valof (lit 0.3) - valof (lit 0.3)\<bar>
     \<le> sqrt (valof (lit 0.6) * valof (lit 0.6) + valof (lit 0) * valof (lit 0))"
  "sqrt (valof (lit 0.6) * valof (lit 0.6) + valof (lit 0) * valof (lit 0))
     \<le> valof (lit 0.3) + valof (lit 0.3)"
  unfolding on_axis [OF full_extension_exact(1)] full_extension_exact(2)
  using full_extension_exact(1) by simp_all

lemma full_extension_real:
  "snd (from_pos_to_angle_real (valof (lit 0.6), valof (lit 0))
         (valof (lit 0.3), valof (lit 0.3))) = 0"
proof -
  define u where "u = valof (lit 0.3)"
  have u: "0 < u" using full_extension_exact(3) by (simp add: u_def)
  have "((u + u) * (u + u) + 0 * 0 - u * u - u * u) / (2 * u * u) = 1"
    using u by (simp add: field_simps)
  then show ?thesis
    unfolding full_extension_exact(2) [symmetric] u_def [symmetric]
    by (simp add: from_pos_to_angle_real_def Let_def)
qed

text \<open>
  C7. The claim is that for link lengths above zero and a position in the annulus the
  solver returns a finite pair with \<open>theta2\<close> in \<open>[0, \<pi>]\<close>. The program breaks it on
  the outer circle: with both links \<open>0.3\<close> the position \<open>(0.6, 0)\<close> is in the annulus,
  for the check of the program and in exact arithmetic, where the formula gives
  \<open>theta2 = 0\<close>; the solver returns NaN for both angles, and the run from there to
  \<open>(0, 0.6)\<close> passes the feasibility check and writes them in the first row of its
  table.
\<close>

theorem theta2_nan_at_full_extension:
  "flt (lit 0) (lit 0.3)
   \<and> reachable \<lparr>cx = lit 0.6, cy = lit 0\<rparr> \<lparr>cx = lit 0.3, cy = lit 0.3\<rparr>
   \<and> \<bar>valof (lit 0.3) - valof (lit 0.3)\<bar>
       \<le> sqrt (valof (lit 0.6) * valof (lit 0.6) + valof (lit 0) * valof (lit 0))
   \<and> sqrt (valof (lit 0.6) * valof (lit 0.6) + valof (lit 0) * valof (lit 0))
       \<le> valof (lit 0.3) + valof (lit 0.3)
   \<and> snd (from_pos_to_angle_real (valof (lit 0.6), valof (lit 0))
            (valof (lit 0.3), valof (lit 0.3))) = 0
   \<and> from_pos_to_angle \<lparr>cx = lit 0.6, cy = lit 0\<rparr> \<lparr>cx = lit 0.3, cy = lit 0.3\<rparr>
       = \<lparr>cx = NaN, cy = NaN\<rparr>
   \<and> is_given_inputs_feasible \<lparr>cx = lit 0.6, cy = lit 0\<rparr> \<lparr>cx = lit 0, cy = lit 0.6\<rparr>
         \<lparr>cx = lit 0.3, cy = lit 0.3\<rparr> = Inr True
   \<and> (\<exists>rows. main \<lparr>cx = lit 0.6, cy = lit 0\<rparr> \<lparr>cx = lit 0, cy = lit 0.6\<rparr>
         \<lparr>cx = lit 0.3, cy = lit 0.3\<rparr>
       = Some (prompts @ header @ Row NaN NaN (lit 0.6) (lit 0) '' (initial)'' # rows, 0))"
proof -
  have "main \<lparr>cx = lit 0.6, cy = lit 0\<rparr> \<lparr>cx = lit 0, cy = lit 0.6\<rparr>
         \<lparr>cx = lit 0.3, cy = lit 0.3\<rparr>
       = Some (prompts @ header @ Row NaN NaN (lit 0.6) (lit 0) '' (initial)''
           # map (\<lambda>j. row (Num False (real j)) \<lparr>cx = lit 0.6, cy = lit 0\<rparr>
                 \<lparr>cx = lit 0, cy = lit 0.6\<rparr> \<lparr>cx = lit 0.3, cy = lit 0.3\<rparr>) [0..<50], 0)"
    using main_feasible [OF run_from_full_extension(1)]
    unfolding full_extension(3) by simp
  then have "\<exists>rows. main \<lparr>cx = lit 0.6, cy = lit 0\<rparr> \<lparr>cx = lit 0, cy = lit 0.6\<rparr>
         \<lparr>cx = lit 0.3, cy = lit 0.3\<rparr>
       = Some (prompts @ header @ Row NaN NaN (lit 0.6) (lit 0) '' (initial)'' # rows, 0)"
    by (rule exI)
  then show ?thesis
    using full_extension(2,1) full_extension_in_annulus full_extension_real full_extension(3)
      run_from_full_extension(1)
    by (intro conjI)
qed

text \<open>
  The same with both links \<open>0.6\<close> and the position \<open>(1.2, 0)\<close>: every double of the
  computation is doubled or quadrupled, which is exact, and the quotient is the same.
\<close>

lemma full_extension_doubled_trace:
  "norm2d (lit 1.2) (lit 0) = lit 1.2"
  "fadd (lit 0.6) (lit 0.6) = lit 1.2"
  "fmul (lit 1.2) (lit 1.2) = lit 1.44"
  "fmul (lit 0.6) (lit 0.6) = lit 0.36"
  "fsub (lit 1.44) (lit 0.36) = lit 1.08"
  "fsub (lit 1.08) (lit 0.36) = lit 0.7200000000000001"
  "fmul (fmul (lit 2) (lit 0.6)) (lit 0.6) = lit 0.72"
  "fdiv (lit 0.7200000000000001) (lit 0.72) = lit 1.0000000000000002"
  "facos (lit 1.0000000000000002) = NaN"
  by (simp_all add: ev)

lemma full_extension_doubled:
  "reachable \<lparr>cx = lit 1.2, cy = lit 0\<rparr> \<lparr>cx = lit 0.6, cy = lit 0.6\<rparr>"
  "flt (lit 0) (lit 0.6)"
  "from_pos_to_angle \<lparr>cx = lit 1.2, cy = lit 0\<rparr> \<lparr>cx = lit 0.6, cy = lit 0.6\<rparr>
     = \<lparr>cx = NaN, cy = NaN\<rparr>"
  by (simp_all add: reachable_def from_pos_to_angle_def ev)

lemma full_extension_doubled_exact:
  "0 \<le> valof (lit 1.2)"
  "valof (lit 0.6) + valof (lit 0.6) = valof (lit 1.2)"
  "0 < valof (lit 0.6)"
  by (simp_all add: ev)

lemma full_extension_doubled_in_annulus:
  "\<bar>valof (lit 0.6) - valof (lit 0.6)\<bar>
     \<le> sqrt (valof (lit 1.2) * valof (lit 1.2) + valof (lit 0) * valof (lit 0))"
  "sqrt (valof (lit 1.2) * valof (lit 1.2) + valof (lit 0) * valof (lit 0))
     \<le> valof (lit 0.6) + valof (lit 0.6)"
  unfolding on_axis [OF full_extension_doubled_exact(1)] full_extension_doubled_exact(2)
  using full_extension_doubled_exact(1) by simp_all

lemma full_extension_doubled_real:
  "forward_kinematics_real
     (from_pos_to_angle_real (valof (lit 1.2), valof (lit 0)) (valof (lit 0.6), valof (lit 0.6)))
     (valof (lit 0.6), valof (lit 0.6)) = (valof (lit 1.2), valof (lit 0))"
  using full_extension_doubled_exact(3) full_extension_doubled_in_annulus
  by (intro forward_kinematics_roundtrip_real)

text \<open>
  C6. The claim is that the forward kinematics of the solver's angles reproduces every
  position of the annulus within a tolerance such as \<open>1e-9\<close>, and exactly over the real
  numbers. The program breaks it on the outer circle: with both links \<open>0.6\<close> the
  position \<open>(1.2, 0)\<close> is in the annulus, for the check of the program and in exact
  arithmetic, where the reconstruction is exact; the solver's angles are NaN, so is the
  reconstructed position, and its distance to \<open>1.2\<close> is not within \<open>1e-9\<close>. The run
  from there to \<open>(0, 1.2)\<close> passes the feasibility check.
\<close>

theorem forward_kinematics_nan_at_full_extension:
  "flt (lit 0) (lit 0.6)
   \<and> reachable \<lparr>cx = lit 1.2, cy = lit 0\<rparr> \<lparr>cx = lit 0.6, cy = lit 0.6\<rparr>
   \<and> \<bar>valof (lit 0.6) - valof (lit 0.6)\<bar>
       \<le> sqrt (valof (lit 1.2) * valof (lit 1.2) + valof (lit 0) * valof (lit 0))
   \<and> sqrt (valof (lit 1.2) * valof (lit 1.2) + valof (lit 0) * valof (lit 0))
       \<le> valof (lit 0.6) + valof (lit 0.6)
   \<and> forward_kinematics_real
        (from_pos_to_angle_real (valof (lit 1.2), valof (lit 0))
          (valof (lit 0.6), valof (lit 0.6)))
        (valof (lit 0.6), valof (lit 0.6)) = (valof (lit 1.2), valof (lit 0))
   \<and> forward_kinematics
        (from_pos_to_angle \<lparr>cx = lit 1.2, cy = lit 0\<rparr> \<lparr>cx = lit 0.6, cy = lit 0.6\<rparr>)
        \<lparr>cx = lit 0.6, cy = lit 0.6\<rparr> = \<lparr>cx = NaN, cy = NaN\<rparr>
   \<and> \<not> fle (fabs (fsub (cx (forward_kinematics
          (from_pos_to_angle \<lparr>cx = lit 1.2, cy = lit 0\<rparr> \<lparr>cx = lit 0.6, cy = lit 0.6\<rparr>)
          \<lparr>cx = lit 0.6, cy = lit 0.6\<rparr>)) (cx \<lparr>cx = lit 1.2, cy = lit 0\<rparr>)))
        (lit (1 / 10 ^ 9))
   \<and> is_given_inputs_feasible \<lparr>cx = lit 1.2, cy = lit 0\<rparr> \<lparr>cx = lit 0, cy = lit 1.2\<rparr>
         \<lparr>cx = lit 0.6, cy = lit 0.6\<rparr> = Inr True"
proof -
  have fk: "forward_kinematics
      (from_pos_to_angle \<lparr>cx = lit 1.2, cy = lit 0\<rparr> \<lparr>cx = lit 0.6, cy = lit 0.6\<rparr>)
      \<lparr>cx = lit 0.6, cy = lit 0.6\<rparr> = \<lparr>cx = NaN, cy = NaN\<rparr>"
    unfolding full_extension_doubled(3) by (simp add: forward_kinematics_def)
  have far: "\<not> fle (fabs (fsub (cx (forward_kinematics
      (from_pos_to_angle \<lparr>cx = lit 1.2, cy = lit 0\<rparr> \<lparr>cx = lit 0.6, cy = lit 0.6\<rparr>)
      \<lparr>cx = lit 0.6, cy = lit 0.6\<rparr>)) (cx \<lparr>cx = lit 1.2, cy = lit 0\<rparr>)))
      (lit (1 / 10 ^ 9))"
    unfolding fk by (simp add: fsub_def fle_def)
  show ?thesis
    using full_extension_doubled(2,1) full_extension_doubled_in_annulus
      full_extension_doubled_real fk far run_from_full_extension(2)
    by (intro conjI)
qed

end
